theory Spec2Isabelle
  imports Complex_Main "HOL-Library.Sublist"
begin

section \<open>Data model\<close>

text \<open>
  An issue as the tracker's listing returns it, with the fields the action reads:
  \<^verbatim>\<open>issue.number\<close>, \<^verbatim>\<open>issue.updated_at\<close> (as the millisecond value of
  \<^verbatim>\<open>new Date(issue.updated_at)\<close>), \<^verbatim>\<open>issue.user\<close> (its \<^verbatim>\<open>login\<close>, or \<open>None\<close> when
  the tracker sends \<^verbatim>\<open>user: null\<close>), \<^verbatim>\<open>issue.labels\<close> (each entry by its name) and the
  truthiness of \<^verbatim>\<open>issue.pull_request\<close>.
  Timestamps and day counts are integers: JavaScript numbers are exact on them far beyond
  every date the tracker can send.
\<close>

record issue =
  number :: nat
  updated_at :: int
  user :: "string option"
  labels :: "string list"
  pull_request :: bool

text \<open>The options object built in the entry script and kept in \<^verbatim>\<open>this.opts\<close>.\<close>

record opts =
  repoOwner :: string
  repoName :: string
  staleAfter :: int
  closeAfter :: int
  staleComment :: string
  closeComment :: string
  staleLabel :: string
  showLogs :: bool

text \<open>
  A thrown value: an \<^verbatim>\<open>Error\<close> object with its \<^verbatim>\<open>message\<close> (a rejected request, a
  \<^verbatim>\<open>TypeError\<close>), or a string thrown by \<^verbatim>\<open>throw `...`\<close>.
\<close>

datatype exn = Error string | Thrown string

text \<open>The parameter objects handed to the tracker client.\<close>

record repo_params =
  rp_owner :: string
  rp_repo :: string

record list_params =
  lp_owner :: string
  lp_repo :: string
  lp_state :: string
  lp_sort :: string
  lp_direction :: string
  lp_per_page :: nat
  lp_page :: nat

record comment_params =
  cp_owner :: string
  cp_repo :: string
  cp_issue_number :: nat
  cp_body :: string

text \<open>
  \<^verbatim>\<open>params.state\<close> and \<^verbatim>\<open>params.labels\<close> are set on one branch each; the other stays
  absent (\<open>None\<close>).
\<close>

record update_params =
  up_owner :: string
  up_repo :: string
  up_issue_number :: nat
  up_state :: "string option"
  up_labels :: "string list option"

text \<open>
  Everything the run does to the outside is an event of its history: each request to the
  tracker client with the response it got (\<open>Inl\<close> the rejection's message), and each line
  written by \<^verbatim>\<open>console.log\<close>, \<^verbatim>\<open>core.warning\<close> and \<^verbatim>\<open>core.error\<close>.
\<close>

datatype event =
    ReposGet repo_params "string + nat"
  | ListForRepo list_params "string + issue list"
  | CreateComment comment_params "string + unit"
  | UpdateIssue update_params "string + unit"
  | ConsoleLog string
  | CoreWarning exn
  | CoreError string

text \<open>
  The environment of a run: the clock read by \<^verbatim>\<open>new Date()\<close> and the tracker client
  \<^verbatim>\<open>this.kit\<close>. Every answer may depend on the history so far. \<open>repos_get\<close> answers with
  \<^verbatim>\<open>data.open_issues_count\<close>, \<open>issues_listForRepo\<close> with \<^verbatim>\<open>data\<close>. \<open>race\<close> decides
  which of several rejected page requests settles first.
\<close>

record env =
  clock :: "event list \<Rightarrow> int"
  repos_get :: "event list \<Rightarrow> repo_params \<Rightarrow> string + nat"
  issues_listForRepo :: "event list \<Rightarrow> list_params \<Rightarrow> string + issue list"
  issues_createComment :: "event list \<Rightarrow> comment_params \<Rightarrow> string + unit"
  issues_update :: "event list \<Rightarrow> update_params \<Rightarrow> string + unit"
  race :: "event list \<Rightarrow> nat"

section \<open>Effects: a history with exceptions\<close>

text \<open>
  A computation takes the history and returns a value or a thrown exception, with the
  extended history. \<open>io_catch\<close> is \<^verbatim>\<open>try { } catch (e) { }\<close>.
\<close>

type_synonym 'a io = "event list \<Rightarrow> (exn + 'a) \<times> event list"

definition io_return :: "'a \<Rightarrow> 'a io" where
  "io_return x = (\<lambda>t. (Inr x, t))"

definition io_throw :: "exn \<Rightarrow> 'a io" where
  "io_throw e = (\<lambda>t. (Inl e, t))"

definition io_bind :: "'a io \<Rightarrow> ('a \<Rightarrow> 'b io) \<Rightarrow> 'b io" where
  "io_bind m f = (\<lambda>t. case m t of (Inl e, t') \<Rightarrow> (Inl e, t') | (Inr x, t') \<Rightarrow> f x t')"

definition io_catch :: "'a io \<Rightarrow> (exn \<Rightarrow> 'a io) \<Rightarrow> 'a io" where
  "io_catch m h = (\<lambda>t. case m t of (Inl e, t') \<Rightarrow> h e t' | (Inr x, t') \<Rightarrow> (Inr x, t'))"

definition io_read :: "(event list \<Rightarrow> 'a) \<Rightarrow> 'a io" where
  "io_read f = (\<lambda>t. (Inr (f t), t))"

definition emit :: "event \<Rightarrow> unit io" where
  "emit ev = (\<lambda>t. (Inr (), t @ [ev]))"

text \<open>\<^verbatim>\<open>e.message\<close>; a thrown string has no such property.\<close>

fun message_of :: "exn \<Rightarrow> string" where
  "message_of (Error m) = m"
| "message_of (Thrown s) = ''undefined''"

text \<open>The four requests of the tracker client: the call is recorded with its answer.\<close>

definition kit_repos_get :: "env \<Rightarrow> repo_params \<Rightarrow> nat io" where
  "kit_repos_get env p = (\<lambda>t. let r = repos_get env t p in (map_sum Error id r, t @ [ReposGet p r]))"

definition kit_issues_listForRepo :: "env \<Rightarrow> list_params \<Rightarrow> issue list io" where
  "kit_issues_listForRepo env p =
     (\<lambda>t. let r = issues_listForRepo env t p in (map_sum Error id r, t @ [ListForRepo p r]))"

definition kit_issues_createComment :: "env \<Rightarrow> comment_params \<Rightarrow> unit io" where
  "kit_issues_createComment env p =
     (\<lambda>t. let r = issues_createComment env t p in (map_sum Error id r, t @ [CreateComment p r]))"

definition kit_issues_update :: "env \<Rightarrow> update_params \<Rightarrow> unit io" where
  "kit_issues_update env p =
     (\<lambda>t. let r = issues_update env t p in (map_sum Error id r, t @ [UpdateIssue p r]))"

section \<open>Strings\<close>

text \<open>Decimal digits of a number, as a template literal or \<^verbatim>\<open>ToString\<close> prints it.\<close>

definition digit_char :: "nat \<Rightarrow> char" where
  "digit_char d = ''0123456789'' ! d"

fun string_of_nat :: "nat \<Rightarrow> string" where
  "string_of_nat n =
     (if n < 10 then [digit_char n] else string_of_nat (n div 10) @ [digit_char (n mod 10)])"

text \<open>\<^verbatim>\<open>s.indexOf(p)\<close>: the position of the first occurrence of \<open>p\<close> in \<open>s\<close>.\<close>

fun indexOf :: "string \<Rightarrow> string \<Rightarrow> nat option" where
  "indexOf [] p = (if p = [] then Some 0 else None)"
| "indexOf (c # cs) p =
     (if prefix p (c # cs) then Some 0 else map_option Suc (indexOf cs p))"

text \<open>
  \<^verbatim>\<open>GetSubstitution\<close> of the language standard for a string pattern (no capture groups):
  in the replacement text \<^verbatim>\<open>$$\<close> stands for a dollar sign, \<^verbatim>\<open>$&\<close> for the matched
  text, \<^verbatim>\<open>$`\<close> (character 0x60) for the text before the match and \<^verbatim>\<open>$'\<close> (character 0x27) for
  the text after it; any other character, and a dollar sign before any other character,
  stands for itself.
\<close>

fun getSubstitution :: "string \<Rightarrow> string \<Rightarrow> nat \<Rightarrow> string \<Rightarrow> string" where
  "getSubstitution matched str pos [] = []"
| "getSubstitution matched str pos [c] = [c]"
| "getSubstitution matched str pos (c # d # r) =
     (if c = CHR ''$'' \<and> d = CHR ''$'' then CHR ''$'' # getSubstitution matched str pos r
      else if c = CHR ''$'' \<and> d = CHR ''&'' then matched @ getSubstitution matched str pos r
      else if c = CHR ''$'' \<and> d = CHR 0x60 then take pos str @ getSubstitution matched str pos r
      else if c = CHR ''$'' \<and> d = CHR 0x27
        then drop (pos + length matched) str @ getSubstitution matched str pos r
      else c # getSubstitution matched str pos (d # r))"

text \<open>\<^verbatim>\<open>s.replace(p, r)\<close> with a string pattern \<open>p\<close>: only the first match is replaced.\<close>

definition js_replace :: "string \<Rightarrow> string \<Rightarrow> string \<Rightarrow> string" where
  "js_replace s p r =
     (case indexOf s p of
        None \<Rightarrow> s
      | Some pos \<Rightarrow> take pos s @ getSubstitution p s pos r @ drop (pos + length p) s)"

text \<open>
  The specification's wording of the substitution, for comparison: the first occurrence of
  the token is replaced by the given text itself, and nothing else changes.
\<close>

definition replace_first :: "string \<Rightarrow> string \<Rightarrow> string \<Rightarrow> string" where
  "replace_first s p r =
     (case indexOf s p of
        None \<Rightarrow> s
      | Some pos \<Rightarrow> take pos s @ r @ drop (pos + length p) s)"

text \<open>
  A text holds a replacement pattern when a dollar sign in it is followed by a dollar
  sign, an ampersand, a backquote or an apostrophe.
\<close>

fun has_pattern :: "string \<Rightarrow> bool" where
  "has_pattern [] = False"
| "has_pattern [c] = False"
| "has_pattern (c # d # r) =
     (c = CHR ''$'' \<and> (d = CHR ''$'' \<or> d = CHR ''&'' \<or> d = CHR 0x60 \<or> d = CHR 0x27) \<or>
      has_pattern (d # r))"

text \<open>\<open>p\<close> occurs in \<open>s\<close> at position \<open>n\<close>.\<close>

definition occurs_at :: "string \<Rightarrow> string \<Rightarrow> nat \<Rightarrow> bool" where
  "occurs_at s p n = (n \<le> length s \<and> prefix p (drop n s))"

section \<open>The action: \<^verbatim>\<open>ActionIssueTriage\<close>\<close>

definition oneDay :: int where
  "oneDay = 24 * 60 * 60 * 1000"

definition io_log :: "opts \<Rightarrow> string \<Rightarrow> unit io" where
  "io_log opts message = (if \<not> showLogs opts then io_return () else emit (ConsoleLog message))"

definition isIssue :: "issue \<Rightarrow> bool" where
  "isIssue issue = (\<not> pull_request issue)"

definition isOlderThan :: "env \<Rightarrow> int \<Rightarrow> int \<Rightarrow> event list \<Rightarrow> bool" where
  "isOlderThan env date days t =
     (let expirationDate = clock env t - days * 24 * 60 * 60 * 1000 in date < expirationDate)"

text \<open>
  \<^verbatim>\<open>Math.round(Math.abs((now - new Date(dayCreated)) / oneDay))\<close>: \<^verbatim>\<open>Math.round\<close> of a
  value that is not negative is the floor of the value plus one half.
\<close>

definition getDaysSince :: "env \<Rightarrow> int \<Rightarrow> event list \<Rightarrow> nat" where
  "getDaysSince env dayCreated t =
     (let now = clock env t
      in nat ((2 * \<bar>now - dayCreated\<bar> + oneDay) div (2 * oneDay)))"

definition filterOldIssues :: "env \<Rightarrow> opts \<Rightarrow> issue list \<Rightarrow> event list \<Rightarrow> issue list" where
  "filterOldIssues env opts issues t =
     filter (\<lambda>issue. isOlderThan env (updated_at issue) (staleAfter opts) t) issues"

definition DAYS_OLD :: string where
  "DAYS_OLD = ''%DAYS_OLD%''"

definition AUTHOR :: string where
  "AUTHOR = ''%AUTHOR%''"

text \<open>
  The text of the \<^verbatim>\<open>TypeError\<close> raised by \<^verbatim>\<open>issue.user.login\<close> on a null user, as the
  engine words it.
\<close>

definition null_login_message :: string where
  "null_login_message =
     ''Cannot read property '' @ [CHR 0x27] @ ''login'' @ [CHR 0x27] @ '' of null''"

definition generateMessage :: "env \<Rightarrow> issue \<Rightarrow> string \<Rightarrow> string io" where
  "generateMessage env issue messageTemplate =
     io_bind (io_read (getDaysSince env (updated_at issue)))
       (\<lambda>days.
          let message = js_replace messageTemplate DAYS_OLD (string_of_nat days)
          in case user issue of
               None \<Rightarrow> io_throw (Error null_login_message)
             | Some login \<Rightarrow> io_return (js_replace message AUTHOR login))"

subsection \<open>Fetching: \<^verbatim>\<open>_getAllIssues\<close>\<close>

definition issuesPerPage :: nat where
  "issuesPerPage = 100"

text \<open>\<^verbatim>\<open>Math.ceil(totalIssues / issuesPerPage)\<close> on a count.\<close>

definition pageCount_of :: "nat \<Rightarrow> nat" where
  "pageCount_of totalIssues = (totalIssues + (issuesPerPage - 1)) div issuesPerPage"

text \<open>The parameter object of the listing request for one page.\<close>

definition listForRepo_params :: "opts \<Rightarrow> nat \<Rightarrow> list_params" where
  "listForRepo_params opts page =
     \<lparr>lp_owner = repoOwner opts, lp_repo = repoName opts, lp_state = ''open'',
      lp_sort = ''updated'', lp_direction = ''desc'', lp_per_page = issuesPerPage,
      lp_page = page\<rparr>"

definition getIssuesForPage :: "env \<Rightarrow> opts \<Rightarrow> nat \<Rightarrow> issue list io" where
  "getIssuesForPage env opts page =
     io_bind (kit_issues_listForRepo env (listForRepo_params opts page))
       (\<lambda>issuesResponse. io_return (filter isIssue issuesResponse))"

text \<open>
  The loop that pushes one promise per page: every request is made before any answer is
  awaited, so a rejected page does not stop the later requests. The result is the list of
  the settled promises.
\<close>

fun issuesPage :: "env \<Rightarrow> opts \<Rightarrow> nat list \<Rightarrow> event list \<Rightarrow> (exn + issue list) list \<times> event list" where
  "issuesPage env opts [] t = ([], t)"
| "issuesPage env opts (i # pages) t =
     (case getIssuesForPage env opts i t of
        (p, t1) \<Rightarrow> (case issuesPage env opts pages t1 of (ps, t2) \<Rightarrow> (p # ps, t2)))"

primrec rejections :: "(exn + 'a) list \<Rightarrow> exn list" where
  "rejections [] = []"
| "rejections (p # ps) = (case p of Inl e \<Rightarrow> e # rejections ps | Inr x \<Rightarrow> rejections ps)"

primrec fulfilled :: "(exn + 'a) list \<Rightarrow> 'a list" where
  "fulfilled [] = []"
| "fulfilled (p # ps) = (case p of Inl e \<Rightarrow> fulfilled ps | Inr x \<Rightarrow> x # fulfilled ps)"

text \<open>
  \<^verbatim>\<open>Promise.all\<close>: the values in the order of the promises when all are fulfilled,
  otherwise the rejection that settles first.
\<close>

definition promise_all :: "env \<Rightarrow> (exn + 'a) list \<Rightarrow> 'a list io" where
  "promise_all env ps =
     (\<lambda>t. case rejections ps of
             [] \<Rightarrow> (Inr (fulfilled ps), t)
           | e # es \<Rightarrow> (Inl ((e # es) ! (race env t mod length (e # es))), t))"

text \<open>The page numbers of \<^verbatim>\<open>for (let i = 1; i <= pageCount; i++)\<close>.\<close>

definition page_numbers :: "nat \<Rightarrow> nat list" where
  "page_numbers pageCount = [1..<Suc pageCount]"

definition fetch_error_line :: "string \<Rightarrow> string" where
  "fetch_error_line m = ''Error while fetching issues: '' @ m"

text \<open>The body of the \<^verbatim>\<open>try\<close> block of \<^verbatim>\<open>_getAllIssues\<close>.\<close>

definition getAllIssues_try :: "env \<Rightarrow> opts \<Rightarrow> issue list io" where
  "getAllIssues_try env opts =
     io_bind (kit_repos_get env \<lparr>rp_owner = repoOwner opts, rp_repo = repoName opts\<rparr>)
       (\<lambda>totalIssues.
          let pageCount = pageCount_of totalIssues
          in (\<lambda>t. case issuesPage env opts (page_numbers pageCount) t of
                     (ps, t1) \<Rightarrow>
                       io_bind (promise_all env ps)
                         (\<lambda>response. io_return (concat response)) t1))"

definition getAllIssues :: "env \<Rightarrow> opts \<Rightarrow> issue list io" where
  "getAllIssues env opts =
     io_catch (getAllIssues_try env opts)
       (\<lambda>e. io_bind (emit (CoreError (fetch_error_line (message_of e))))
               (\<lambda>_. io_return []))"

subsection \<open>Writing: \<^verbatim>\<open>_postComment\<close> and \<^verbatim>\<open>_updateIssue\<close>\<close>

text \<open>
  \<open>dryRun\<close> is the module constant \<^verbatim>\<open>!!process.env.GH_ACTION_LOCAL_TEST\<close>.
\<close>

text \<open>The \<^verbatim>\<open>params\<close> object of \<^verbatim>\<open>_postComment\<close>.\<close>

definition postComment_params :: "opts \<Rightarrow> issue \<Rightarrow> string \<Rightarrow> comment_params" where
  "postComment_params opts issue message =
     \<lparr>cp_owner = repoOwner opts, cp_repo = repoName opts,
      cp_issue_number = number issue, cp_body = message\<rparr>"

definition comment_error_line :: "issue \<Rightarrow> string \<Rightarrow> string" where
  "comment_error_line issue m =
     ''Could not post a comment in issue #'' @ string_of_nat (number issue) @ '': '' @ m"

definition postComment :: "env \<Rightarrow> opts \<Rightarrow> bool \<Rightarrow> issue \<Rightarrow> string \<Rightarrow> bool io" where
  "postComment env opts dryRun issue commentTemplate =
     io_bind (generateMessage env issue commentTemplate)
       (\<lambda>message.
          io_catch
            (io_bind
               (if \<not> dryRun
                then kit_issues_createComment env (postComment_params opts issue message)
                else io_return ())
               (\<lambda>_. io_return True))
            (\<lambda>e. io_bind (emit (CoreError (comment_error_line issue (message_of e))))
                    (\<lambda>_. io_return False)))"

text \<open>
  The \<^verbatim>\<open>params\<close> object of \<^verbatim>\<open>_updateIssue\<close>: the state \<^verbatim>\<open>'closed'\<close>, or the labels
  \<^verbatim>\<open>[...issue.labels, this.opts.staleLabel]\<close>.
\<close>

definition updateIssue_params :: "opts \<Rightarrow> issue \<Rightarrow> bool \<Rightarrow> update_params" where
  "updateIssue_params opts issue closeIssue =
     (if closeIssue
      then \<lparr>up_owner = repoOwner opts, up_repo = repoName opts,
            up_issue_number = number issue, up_state = Some ''closed'', up_labels = None\<rparr>
      else \<lparr>up_owner = repoOwner opts, up_repo = repoName opts,
            up_issue_number = number issue, up_state = None,
            up_labels = Some (labels issue @ [staleLabel opts])\<rparr>)"

definition update_error_line :: "issue \<Rightarrow> bool \<Rightarrow> string \<Rightarrow> string" where
  "update_error_line issue closeIssue m =
     ''Could not '' @ (if closeIssue then ''close'' else ''update'') @ '' issue #'' @
     string_of_nat (number issue) @ '': '' @ m"

definition updateIssue :: "env \<Rightarrow> opts \<Rightarrow> bool \<Rightarrow> issue \<Rightarrow> bool \<Rightarrow> bool io" where
  "updateIssue env opts dryRun issue closeIssue =
     io_catch
       (io_bind
          (if \<not> dryRun
           then kit_issues_update env (updateIssue_params opts issue closeIssue)
           else io_return ())
          (\<lambda>_. io_return True))
       (\<lambda>e. io_bind (emit (CoreError (update_error_line issue closeIssue (message_of e))))
               (\<lambda>_. io_return False))"

subsection \<open>The run\<close>

text \<open>The two counters of \<^verbatim>\<open>run\<close>.\<close>

record counts =
  markedStale :: nat
  closed :: nat

text \<open>The condition under which \<^verbatim>\<open>isClosingDown\<close> is set.\<close>

definition isClosingDown :: "env \<Rightarrow> opts \<Rightarrow> issue \<Rightarrow> event list \<Rightarrow> bool" where
  "isClosingDown env opts issue t =
     (closeAfter opts > staleAfter opts \<and> isOlderThan env (updated_at issue) (closeAfter opts) t)"

text \<open>The two strings thrown inside the \<^verbatim>\<open>try\<close> block.\<close>

definition update_failed :: "issue \<Rightarrow> exn" where
  "update_failed issue = Thrown (''Could not update issue #'' @ string_of_nat (number issue) @ ''.'')"

definition post_failed :: "issue \<Rightarrow> exn" where
  "post_failed issue = Thrown (''Could not post comment for #'' @ string_of_nat (number issue) @ ''.'')"

text \<open>The body of the \<^verbatim>\<open>try\<close> block of the loop, for one issue.\<close>

definition triage_try :: "env \<Rightarrow> opts \<Rightarrow> bool \<Rightarrow> issue \<Rightarrow> counts \<Rightarrow> counts io" where
  "triage_try env opts dryRun issue c =
     io_bind (io_read (isClosingDown env opts issue))
       (\<lambda>closing.
          io_bind
            (postComment env opts dryRun issue
               (if closing then closeComment opts else staleComment opts))
            (\<lambda>postSuccess.
               if postSuccess
               then io_bind (updateIssue env opts dryRun issue closing)
                      (\<lambda>updateSuccess.
                         if updateSuccess
                         then (if closing
                               then io_return (c\<lparr>closed := closed c + 1\<rparr>)
                               else io_return (c\<lparr>markedStale := markedStale c + 1\<rparr>))
                         else io_throw (update_failed issue))
               else io_throw (post_failed issue)))"

text \<open>One round of the loop: the \<^verbatim>\<open>try\<close> block and its \<^verbatim>\<open>catch\<close>.\<close>

definition triage_issue :: "env \<Rightarrow> opts \<Rightarrow> bool \<Rightarrow> issue \<Rightarrow> counts \<Rightarrow> counts io" where
  "triage_issue env opts dryRun issue c =
     io_catch (triage_try env opts dryRun issue c)
       (\<lambda>e. io_bind (emit (CoreWarning e)) (\<lambda>_. io_return c))"

fun triage_loop :: "env \<Rightarrow> opts \<Rightarrow> bool \<Rightarrow> issue list \<Rightarrow> counts \<Rightarrow> counts io" where
  "triage_loop env opts dryRun [] c = io_return c"
| "triage_loop env opts dryRun (issue # staleIssues) c =
     io_bind (triage_issue env opts dryRun issue c) (triage_loop env opts dryRun staleIssues)"

text \<open>The three closing log lines of \<^verbatim>\<open>run\<close>.\<close>

definition stale_line :: "nat \<Rightarrow> string" where
  "stale_line n = ''Issues marked as stale: '' @ string_of_nat n"

definition closed_line :: "nat \<Rightarrow> string" where
  "closed_line n = ''Issues closed down: '' @ string_of_nat n"

definition report :: "opts \<Rightarrow> counts \<Rightarrow> unit io" where
  "report opts c =
     io_bind
       (if markedStale c \<noteq> 0
        then io_log opts (stale_line (markedStale c))
        else io_return ())
       (\<lambda>_. io_bind
               (if closed c \<noteq> 0
                then io_log opts (closed_line (closed c))
                else io_return ())
               (\<lambda>_. if markedStale c = 0 \<and> closed c = 0
                     then io_log opts ''No old issues found, sweet!''
                     else io_return ()))"

text \<open>The two opening log lines of \<^verbatim>\<open>run\<close>.\<close>

definition no_issues_line :: "opts \<Rightarrow> string" where
  "no_issues_line opts = ''No issues found for '' @ repoOwner opts @ ''/'' @ repoName opts"

definition total_issues_line :: "opts \<Rightarrow> nat \<Rightarrow> string" where
  "total_issues_line opts n =
     ''Total issues for '' @ repoOwner opts @ ''/'' @ repoName opts @ '': '' @ string_of_nat n"

text \<open>
  The run up to the end of its loop: the candidates and the counters, or \<open>None\<close> when
  nothing was fetched and the run has returned early.
\<close>

definition run_triage :: "env \<Rightarrow> opts \<Rightarrow> bool \<Rightarrow> (issue list \<times> counts) option io" where
  "run_triage env opts dryRun =
     io_bind (getAllIssues env opts)
       (\<lambda>allIssues.
          if allIssues = []
          then io_bind (io_log opts (no_issues_line opts)) (\<lambda>_. io_return None)
          else io_bind (io_log opts (total_issues_line opts (length allIssues)))
                 (\<lambda>_. io_bind (io_read (filterOldIssues env opts allIssues))
                         (\<lambda>staleIssues.
                            io_bind
                              (triage_loop env opts dryRun staleIssues
                                 \<lparr>markedStale = 0, closed = 0\<rparr>)
                              (\<lambda>c. io_return (Some (staleIssues, c))))))"

text \<open>\<^verbatim>\<open>run\<close>: it returns no value (\<^verbatim>\<open>undefined\<close>, here the unit value).\<close>

definition run :: "env \<Rightarrow> opts \<Rightarrow> bool \<Rightarrow> unit io" where
  "run env opts dryRun =
     io_bind (run_triage env opts dryRun)
       (\<lambda>r. case r of
               None \<Rightarrow> io_return ()
             | Some (staleIssues, c) \<Rightarrow> report opts c)"

section \<open>Reading a history\<close>

text \<open>The listing requests of a history, in the order they were made.\<close>

fun page_requests :: "event list \<Rightarrow> list_params list" where
  "page_requests [] = []"
| "page_requests (ListForRepo p r # h) = p # page_requests h"
| "page_requests (ev # h) = page_requests h"

text \<open>The answers to the listing requests of a history, in the same order.\<close>

fun page_answers :: "event list \<Rightarrow> (string + issue list) list" where
  "page_answers [] = []"
| "page_answers (ListForRepo p r # h) = r # page_answers h"
| "page_answers (ev # h) = page_answers h"

text \<open>A reading request that the tracker rejected.\<close>

fun rejected_read :: "event \<Rightarrow> bool" where
  "rejected_read (ReposGet p (Inl m)) = True"
| "rejected_read (ListForRepo p (Inl m)) = True"
| "rejected_read ev = False"

text \<open>
  The issue a request writes to: a comment created on it, or an update of it. The other
  events write to no issue.
\<close>

fun written :: "event \<Rightarrow> nat option" where
  "written (CreateComment p r) = Some (cp_issue_number p)"
| "written (UpdateIssue p r) = Some (up_issue_number p)"
| "written ev = None"

primrec writes :: "event list \<Rightarrow> nat list" where
  "writes [] = []"
| "writes (ev # h) = (case written ev of None \<Rightarrow> writes h | Some n \<Rightarrow> n # writes h)"

text \<open>A history without its writing requests: the reads and the logged lines.\<close>

definition logs_of :: "event list \<Rightarrow> event list" where
  "logs_of h = filter (\<lambda>ev. written ev = None) h"

text \<open>
  An update that asks to close the issue, an update that sets the labels, and a write that
  the tracker accepted.
\<close>

fun close_request :: "event \<Rightarrow> bool" where
  "close_request (UpdateIssue p r) = (up_state p = Some ''closed'')"
| "close_request ev = False"

fun label_request :: "event \<Rightarrow> bool" where
  "label_request (UpdateIssue p r) = (up_labels p \<noteq> None)"
| "label_request ev = False"

fun accepted :: "event \<Rightarrow> bool" where
  "accepted (CreateComment p (Inr u)) = True"
| "accepted (UpdateIssue p (Inr u)) = True"
| "accepted ev = False"


text \<open>The lines that the end of a run logs for given counters.\<close>

definition report_lines :: "opts \<Rightarrow> counts \<Rightarrow> event list" where
  "report_lines opts c =
     (if showLogs opts
      then (if markedStale c \<noteq> 0 then [ConsoleLog (stale_line (markedStale c))] else []) @
           (if closed c \<noteq> 0 then [ConsoleLog (closed_line (closed c))] else []) @
           (if markedStale c = 0 \<and> closed c = 0
            then [ConsoleLog ''No old issues found, sweet!''] else [])
      else [])"

section \<open>The entry script\<close>

definition staleCommentDefault :: string where
  "staleCommentDefault =
     '' Beep Boop  '' @ [CHR 0x0A, CHR 0x0A] @
     ''This issue was last updated %DAYS_OLD% days ago! Marking as STALE.'' @ [CHR 0x0A] @
     '' CC @%AUTHOR%''"

definition closeCommentDefault :: string where
  "closeCommentDefault =
     '' Beep Boop  '' @ [CHR 0x0A, CHR 0x0A] @
     ''This issue was inactive for %DAYS_OLD% days, so closing it down. If you have something to add, please feel free to reopen.'' @
     [CHR 0x0A, CHR 0x0A] @ ''CC @%AUTHOR%''"

text \<open>
  The options object of the entry script. \<open>getInput\<close> is \<^verbatim>\<open>core.getInput\<close> of the
  actions toolkit (the empty string for an input that is not supplied), \<open>toNumber\<close> the
  unary plus on a string, \<open>owner\<close> and \<open>name\<close> the two parts of
  \<^verbatim>\<open>GITHUB_REPOSITORY\<close>. \<^verbatim>\<open>x || d\<close> on a string \<open>x\<close> is \<open>d\<close> when \<open>x\<close> is empty.
\<close>

definition options :: "(string \<Rightarrow> string) \<Rightarrow> (string \<Rightarrow> int) \<Rightarrow> string \<Rightarrow> string \<Rightarrow> opts" where
  "options getInput toNumber owner name =
     \<lparr>repoOwner = owner,
      repoName = name,
      staleAfter =
        (if getInput ''staleAfter'' = [] then 30 else toNumber (getInput ''staleAfter'')),
      closeAfter =
        (if getInput ''closeAfter'' = [] then 0 else toNumber (getInput ''closeAfter'')),
      staleComment =
        (if getInput ''staleComment'' = [] then staleCommentDefault
         else getInput ''staleComment''),
      closeComment =
        (if getInput ''staleComment'' = [] then closeCommentDefault
         else getInput ''staleComment''),
      staleLabel = (if getInput ''staleLabel'' = [] then ''STALE'' else getInput ''staleLabel''),
      showLogs =
        ((if getInput ''showLogs'' = [] then ''true'' else getInput ''showLogs'') = ''true'')\<rparr>"

section \<open>A concrete repository\<close>

text \<open>
  Three open issues and one pull request, last updated 10, 40, 70 and 80 days before the
  clock's reading; the thresholds are 30 and 60 days.
\<close>

definition demo_now :: int where
  "demo_now = 100 * oneDay"

definition demo_issue :: "nat \<Rightarrow> int \<Rightarrow> string \<Rightarrow> bool \<Rightarrow> issue" where
  "demo_issue n days_ago login pr =
     \<lparr>number = n, updated_at = demo_now - days_ago * oneDay, user = Some login,
      labels = [''bug''], pull_request = pr\<rparr>"

definition demo_entries :: "issue list" where
  "demo_entries =
     [demo_issue 1 10 ''carol'' False, demo_issue 2 40 ''alice'' False,
      demo_issue 3 70 ''bob'' False, demo_issue 4 80 ''dave'' True]"

text \<open>A tracker that serves a fixed list of entries in pages and accepts every write.\<close>

definition serving :: "issue list \<Rightarrow> env" where
  "serving entries =
     \<lparr>clock = (\<lambda>t. demo_now),
      repos_get = (\<lambda>t p. Inr (length entries)),
      issues_listForRepo =
        (\<lambda>t p. Inr (take (lp_per_page p) (drop ((lp_page p - 1) * lp_per_page p) entries))),
      issues_createComment = (\<lambda>t p. Inr ()),
      issues_update = (\<lambda>t p. Inr ()),
      race = (\<lambda>t. 0)\<rparr>"

text \<open>
  The same tracker when the repository cannot be read, and when its second page cannot.
\<close>

definition unreadable :: "issue list \<Rightarrow> env" where
  "unreadable entries = (serving entries)\<lparr>repos_get := (\<lambda>t p. Inl ''Not Found'')\<rparr>"

definition page_two_fails :: "issue list \<Rightarrow> env" where
  "page_two_fails entries =
     (serving entries)\<lparr>issues_listForRepo :=
        (\<lambda>t p. if lp_page p = 2 then Inl ''Server Error''
               else issues_listForRepo (serving entries) t p)\<rparr>"

text \<open>The same tracker when it refuses every comment on issue \<open>n\<close>.\<close>

definition comment_refused :: "nat \<Rightarrow> issue list \<Rightarrow> env" where
  "comment_refused n entries =
     (serving entries)\<lparr>issues_createComment :=
        (\<lambda>t p. if cp_issue_number p = n then Inl ''Forbidden'' else Inr ())\<rparr>"

text \<open>250 entries, every fifth a pull request: three pages.\<close>

definition many_entries :: "issue list" where
  "many_entries = map (\<lambda>n. demo_issue n 40 ''alice'' (n mod 5 = 0)) [1..<251]"

text \<open>An issue that already carries the stale label.\<close>

definition relabelled :: issue where
  "relabelled =
     \<lparr>number = 5, updated_at = demo_now - 45 * oneDay, user = Some ''erin'',
      labels = [''STALE''], pull_request = False\<rparr>"

definition demo_opts :: opts where
  "demo_opts =
     \<lparr>repoOwner = ''o'', repoName = ''r'', staleAfter = 30, closeAfter = 60,
      staleComment = ''%DAYS_OLD% @%AUTHOR%'', closeComment = ''bye %AUTHOR%'',
      staleLabel = ''STALE'', showLogs = True\<rparr>"

section \<open>Unfolding the effects\<close>

lemmas io_defs = io_return_def io_throw_def io_bind_def io_catch_def io_read_def emit_def

lemmas kit_defs = kit_repos_get_def kit_issues_listForRepo_def kit_issues_createComment_def
  kit_issues_update_def

declare string_of_nat.simps [simp del]

lemma generateMessage_user:
  "generateMessage env issue tmpl t =
     (case user issue of
        None \<Rightarrow> (Inl (Error null_login_message), t)
      | Some login \<Rightarrow>
          (Inr (js_replace (js_replace tmpl DAYS_OLD
                  (string_of_nat (getDaysSince env (updated_at issue) t))) AUTHOR login), t))"
  by (simp add: generateMessage_def io_defs split: option.splits)

lemma postComment_cases:
  "postComment env opts dryRun issue tmpl t =
     (case fst (generateMessage env issue tmpl t) of
        Inl e \<Rightarrow> (Inl e, t)
      | Inr message \<Rightarrow>
          if dryRun then (Inr True, t)
          else (case issues_createComment env t (postComment_params opts issue message) of
                  Inr u \<Rightarrow> (Inr True, t @ [CreateComment (postComment_params opts issue message) (Inr u)])
                | Inl m \<Rightarrow>
                    (Inr False,
                     t @ [CreateComment (postComment_params opts issue message) (Inl m),
                          CoreError (comment_error_line issue m)])))"
  by (simp add: postComment_def generateMessage_user io_defs kit_defs Let_def
      split: option.splits sum.splits)

lemma updateIssue_cases:
  "updateIssue env opts dryRun issue closeIssue t =
     (if dryRun then (Inr True, t)
      else (case issues_update env t (updateIssue_params opts issue closeIssue) of
              Inr u \<Rightarrow> (Inr True, t @ [UpdateIssue (updateIssue_params opts issue closeIssue) (Inr u)])
            | Inl m \<Rightarrow>
                (Inr False,
                 t @ [UpdateIssue (updateIssue_params opts issue closeIssue) (Inl m),
                      CoreError (update_error_line issue closeIssue m)])))"
  by (simp add: updateIssue_def io_defs kit_defs Let_def split: option.splits sum.splits)

lemma triage_try_cases:
  "triage_try env opts dryRun issue c t =
     (case postComment env opts dryRun issue
             (if isClosingDown env opts issue t then closeComment opts else staleComment opts) t of
        (Inl e, t1) \<Rightarrow> (Inl e, t1)
      | (Inr postSuccess, t1) \<Rightarrow>
          if postSuccess
          then (case updateIssue env opts dryRun issue (isClosingDown env opts issue t) t1 of
                  (Inl e, t2) \<Rightarrow> (Inl e, t2)
                | (Inr updateSuccess, t2) \<Rightarrow>
                    if updateSuccess
                    then (Inr (if isClosingDown env opts issue t
                               then c\<lparr>closed := closed c + 1\<rparr>
                               else c\<lparr>markedStale := markedStale c + 1\<rparr>), t2)
                    else (Inl (update_failed issue), t2))
          else (Inl (post_failed issue), t1))"
  by (cases "isClosingDown env opts issue t")
     (simp_all add: triage_try_def io_defs split: prod.split sum.split)

lemma triage_issue_catch:
  "triage_issue env opts dryRun issue c t =
     (case triage_try env opts dryRun issue c t of
        (Inl e, t') \<Rightarrow> (Inr c, t' @ [CoreWarning e])
      | (Inr c', t') \<Rightarrow> (Inr c', t'))"
  by (simp add: triage_issue_def io_defs split: prod.splits sum.splits)


lemma triage_issue_cases:
  "triage_issue env opts dryRun issue c t =
     (let closing = isClosingDown env opts issue t;
          counted = (if closing then c\<lparr>closed := closed c + 1\<rparr>
                     else c\<lparr>markedStale := markedStale c + 1\<rparr>)
      in case fst (generateMessage env issue
                     (if closing then closeComment opts else staleComment opts) t) of
           Inl e \<Rightarrow> (Inr c, t @ [CoreWarning e])
         | Inr message \<Rightarrow>
             if dryRun then (Inr counted, t)
             else
               (let cp = postComment_params opts issue message;
                    t1 = t @ [CreateComment cp (issues_createComment env t cp)]
                in case issues_createComment env t cp of
                     Inl m \<Rightarrow>
                       (Inr c,
                        t1 @ [CoreError (comment_error_line issue m), CoreWarning (post_failed issue)])
                   | Inr u \<Rightarrow>
                       (let up = updateIssue_params opts issue closing;
                            t2 = t1 @ [UpdateIssue up (issues_update env t1 up)]
                        in case issues_update env t1 up of
                             Inl m \<Rightarrow>
                               (Inr c,
                                t2 @ [CoreError (update_error_line issue closing m),
                                      CoreWarning (update_failed issue)])
                           | Inr u' \<Rightarrow> (Inr counted, t2))))"
  by (cases "isClosingDown env opts issue t")
     (simp_all add: triage_issue_catch triage_try_cases postComment_cases updateIssue_cases Let_def
       split: sum.split)

lemma triage_issue_returns:
  "\<exists>c' d. triage_issue env opts dryRun issue c t = (Inr c', t @ d)"
  by (cases "isClosingDown env opts issue t")
     (simp_all add: triage_issue_cases Let_def split: sum.split)

lemma triage_loop_returns:
  "\<exists>c' d. triage_loop env opts dryRun issues c t = (Inr c', t @ d)"
proof (induction issues arbitrary: c t)
  case Nil
  show ?case by (simp add: io_return_def)
next
  case (Cons issue issues)
  obtain c1 d1 where s1: "triage_issue env opts dryRun issue c t = (Inr c1, t @ d1)"
    using triage_issue_returns by blast
  obtain c2 d2 where s2: "triage_loop env opts dryRun issues c1 (t @ d1) = (Inr c2, (t @ d1) @ d2)"
    using Cons.IH by blast
  show ?case
    using s1 s2 by (simp add: io_bind_def)
qed

lemma triage_loop_Cons:
  assumes "triage_issue env opts dryRun issue c t = (Inr c1, t1)"
  shows "triage_loop env opts dryRun (issue # rest) c t = triage_loop env opts dryRun rest c1 t1"
  using assms by (simp add: io_bind_def)

section \<open>Strings and rounding\<close>

lemma digit_char_digit: "d < 10 \<Longrightarrow> digit_char d \<in> set ''0123456789''"
  unfolding digit_char_def by (rule nth_mem) simp

lemma string_of_nat_digits: "set (string_of_nat n) \<subseteq> set ''0123456789''"
proof (induction n rule: string_of_nat.induct)
  case (1 n)
  show ?case
  proof (cases "n < 10")
    case True
    then show ?thesis
      using digit_char_digit [of n] by (simp add: string_of_nat.simps [of n])
  next
    case False
    have "n mod 10 < 10" by simp
    then have "digit_char (n mod 10) \<in> set ''0123456789''"
      by (rule digit_char_digit)
    then show ?thesis
      using False 1 by (simp add: string_of_nat.simps [of n])
  qed
qed

lemma string_of_nat_no_dollar: "CHR ''$'' \<notin> set (string_of_nat n)"
  using string_of_nat_digits [of n] by auto

lemma getSubstitution_literal:
  "CHR ''$'' \<notin> set r \<Longrightarrow> getSubstitution matched str pos r = r"
  by (induction matched str pos r rule: getSubstitution.induct) auto

lemma js_replace_literal:
  "CHR ''$'' \<notin> set r \<Longrightarrow> js_replace s p r = replace_first s p r"
  by (simp add: js_replace_def replace_first_def getSubstitution_literal split: option.split)

lemma indexOf_occurs: "indexOf s p = Some n \<Longrightarrow> occurs_at s p n"
proof (induction s arbitrary: n)
  case Nil
  then show ?case by (auto simp: occurs_at_def split: if_splits)
next
  case (Cons c cs)
  show ?case
  proof (cases "prefix p (c # cs)")
    case True
    then show ?thesis using Cons.prems by (simp add: occurs_at_def)
  next
    case False
    then obtain m where m: "indexOf cs p = Some m" "n = Suc m"
      using Cons.prems by auto
    then show ?thesis using Cons.IH [of m] by (simp add: occurs_at_def)
  qed
qed

lemma indexOf_least: "indexOf s p = Some n \<Longrightarrow> k < n \<Longrightarrow> \<not> occurs_at s p k"
proof (induction s arbitrary: n k)
  case Nil
  then show ?case by (auto split: if_splits)
next
  case (Cons c cs)
  show ?case
  proof (cases "prefix p (c # cs)")
    case True
    then show ?thesis using Cons.prems by simp
  next
    case False
    then obtain m where m: "indexOf cs p = Some m" "n = Suc m"
      using Cons.prems by auto
    show ?thesis
    proof (cases k)
      case 0
      then show ?thesis using False by (simp add: occurs_at_def)
    next
      case (Suc j)
      then show ?thesis using Cons.IH [of m j] m Cons.prems by (simp add: occurs_at_def)
    qed
  qed
qed

lemma indexOf_None: "indexOf s p = None \<Longrightarrow> \<not> occurs_at s p k"
proof (induction s arbitrary: k)
  case Nil
  then show ?case by (auto simp: occurs_at_def split: if_splits)
next
  case (Cons c cs)
  then have np: "\<not> prefix p (c # cs)" and rest: "indexOf cs p = None"
    by (auto split: if_splits)
  show ?case
  proof (cases k)
    case 0
    then show ?thesis using np by (simp add: occurs_at_def)
  next
    case (Suc j)
    then show ?thesis using Cons.IH [OF rest, of j] by (simp add: occurs_at_def)
  qed
qed

lemma indexOf_first:
  assumes "occurs_at s p n" and "\<forall>k<n. \<not> occurs_at s p k"
  shows "indexOf s p = Some n"
proof (cases "indexOf s p")
  case None
  then show ?thesis using indexOf_None assms(1) by blast
next
  case (Some m)
  have "\<not> m < n" using indexOf_occurs [OF Some] assms(2) by blast
  moreover have "\<not> n < m" using indexOf_least [OF Some] assms(1) by blast
  ultimately show ?thesis using Some by simp
qed

lemma occurs_at_split: "occurs_at s p n \<Longrightarrow> s = take n s @ p @ drop (n + length p) s"
proof -
  assume "occurs_at s p n"
  then obtain zs where zs: "drop n s = p @ zs"
    by (auto simp: occurs_at_def prefix_def)
  have "drop (n + length p) s = drop (length p) (drop n s)"
    by (simp add: add.commute)
  then have "drop (n + length p) s = zs" using zs by simp
  then show ?thesis using zs by (metis append_take_drop_id)
qed

lemma replace_first_none: "\<forall>n. \<not> occurs_at s p n \<Longrightarrow> replace_first s p r = s"
  using indexOf_occurs by (fastforce simp: replace_first_def split: option.split)

lemma replace_first_at:
  "occurs_at s p n \<Longrightarrow> \<forall>k<n. \<not> occurs_at s p k \<Longrightarrow>
   replace_first s p r = take n s @ r @ drop (n + length p) s"
  by (simp add: replace_first_def indexOf_first)

lemma getDaysSince_round:
  "int (getDaysSince env d t) = round (\<bar>real_of_int (clock env t - d)\<bar> / real_of_int oneDay)"
proof -
  let ?a = "\<bar>clock env t - d\<bar>"
  have pos: "0 \<le> (2 * ?a + oneDay) div (2 * oneDay)"
    by (simp add: oneDay_def pos_imp_zdiv_nonneg_iff)
  have "real_of_int ?a / real_of_int oneDay + 1 / 2 =
        real_of_int (2 * ?a + oneDay) / real_of_int (2 * oneDay)"
    by (simp add: oneDay_def add_divide_distrib)
  then have "round (real_of_int ?a / real_of_int oneDay) =
        \<lfloor>real_of_int (2 * ?a + oneDay) / real_of_int (2 * oneDay)\<rfloor>"
    by (simp only: round_def)
  also have "\<dots> = (2 * ?a + oneDay) div (2 * oneDay)"
    by (rule floor_divide_of_int_eq)
  finally show ?thesis
    using pos by (simp add: getDaysSince_def Let_def)
qed

section \<open>Fetching\<close>

lemma getIssuesForPage_cases:
  "getIssuesForPage env opts page t =
     (map_sum Error (filter isIssue) (issues_listForRepo env t (listForRepo_params opts page)),
      t @ [ListForRepo (listForRepo_params opts page)
             (issues_listForRepo env t (listForRepo_params opts page))])"
  by (cases "issues_listForRepo env t (listForRepo_params opts page)")
     (simp_all add: getIssuesForPage_def io_defs kit_defs Let_def)

lemma page_requests_append: "page_requests (h @ h') = page_requests h @ page_requests h'"
  by (induction h rule: page_requests.induct) simp_all

lemma writes_append: "writes (h @ h') = writes h @ writes h'"
  by (induction h) (simp_all split: option.split)

lemma issuesPage_history:
  "\<exists>d. snd (issuesPage env opts pages t) = t @ d \<and>
       page_requests d = map (listForRepo_params opts) pages \<and> writes d = [] \<and>
       length d = length pages"
proof (induction pages arbitrary: t)
  case Nil
  show ?case by simp
next
  case (Cons i pages)
  let ?ev = "ListForRepo (listForRepo_params opts i)
               (issues_listForRepo env t (listForRepo_params opts i))"
  obtain d where d: "snd (issuesPage env opts pages (t @ [?ev])) = (t @ [?ev]) @ d"
      "page_requests d = map (listForRepo_params opts) pages" "writes d = []"
      "length d = length pages"
    using Cons.IH by blast
  have "snd (issuesPage env opts (i # pages) t) = t @ (?ev # d)"
    using d(1) by (simp add: getIssuesForPage_cases case_prod_beta)
  moreover have "page_requests (?ev # d) = map (listForRepo_params opts) (i # pages)"
    using d(2) by simp
  moreover have "writes (?ev # d) = []"
    using d(3) by simp
  moreover have "length (?ev # d) = length (i # pages)"
    using d(4) by simp
  ultimately show ?case by blast
qed

lemma getAllIssues_try_cases:
  "getAllIssues_try env opts t =
     (let rp = \<lparr>rp_owner = repoOwner opts, rp_repo = repoName opts\<rparr>
      in case repos_get env t rp of
           Inl m \<Rightarrow> (Inl (Error m), t @ [ReposGet rp (Inl m)])
         | Inr totalIssues \<Rightarrow>
             (case issuesPage env opts (page_numbers (pageCount_of totalIssues))
                     (t @ [ReposGet rp (Inr totalIssues)]) of
                (ps, t1) \<Rightarrow>
                  (case rejections ps of
                     [] \<Rightarrow> (Inr (concat (fulfilled ps)), t1)
                   | e # es \<Rightarrow> (Inl ((e # es) ! (race env t1 mod length (e # es))), t1))))"
  by (simp add: getAllIssues_try_def promise_all_def io_defs kit_defs Let_def
      split: sum.split prod.split list.split)

lemma getAllIssues_cases:
  "getAllIssues env opts t =
     (let rp = \<lparr>rp_owner = repoOwner opts, rp_repo = repoName opts\<rparr>
      in case repos_get env t rp of
           Inl m \<Rightarrow> (Inr [], t @ [ReposGet rp (Inl m), CoreError (fetch_error_line m)])
         | Inr totalIssues \<Rightarrow>
             (case issuesPage env opts (page_numbers (pageCount_of totalIssues))
                     (t @ [ReposGet rp (Inr totalIssues)]) of
                (ps, t1) \<Rightarrow>
                  (case rejections ps of
                     [] \<Rightarrow> (Inr (concat (fulfilled ps)), t1)
                   | e # es \<Rightarrow>
                       (Inr [],
                        t1 @ [CoreError (fetch_error_line
                                (message_of ((e # es) ! (race env t1 mod length (e # es)))))]))))"
  by (simp add: getAllIssues_def getAllIssues_try_cases io_defs Let_def
      split: sum.split prod.split list.split)

lemma pageCount_upper: "(n::nat) \<le> 100 * ((n + 99) div 100)"
proof -
  have "(n + 99) mod 100 \<le> 99"
    using mod_less_divisor [of 100 "n + 99"] by linarith
  moreover have "100 * ((n + 99) div 100) + (n + 99) mod 100 = n + 99"
    by (rule mult_div_mod_eq)
  ultimately show ?thesis by linarith
qed

lemma pageCount_lower: "100 * (((n::nat) + 99) div 100) < n + 100"
proof -
  have "100 * ((n + 99) div 100) + (n + 99) mod 100 = n + 99"
    by (rule mult_div_mod_eq)
  then show ?thesis by linarith
qed

lemma pageCount_ceiling: "int (pageCount_of n) = \<lceil>real n / real issuesPerPage\<rceil>"
proof -
  let ?z = "(n + 99) div 100"
  have "real n \<le> real (100 * ?z)" using pageCount_upper [of n] by (simp only: of_nat_le_iff)
  then have a: "real n / 100 \<le> real_of_int (int ?z)" by simp
  have "real (100 * ?z) < real (n + 100)" using pageCount_lower [of n] by (simp only: of_nat_less_iff)
  then have b: "real_of_int (int ?z) - 1 < real n / 100" by simp
  have "\<lceil>real n / 100\<rceil> = int ?z"
    by (rule ceiling_unique [OF b a])
  then show ?thesis by (simp add: pageCount_of_def issuesPerPage_def)
qed

lemma pages_concat:
  "concat (map (\<lambda>i. take k (drop ((i - 1) * k) xs)) [1..<Suc m]) = take (m * k) xs"
proof (induction m)
  case 0
  show ?case by simp
next
  case (Suc m)
  have "concat (map (\<lambda>i. take k (drop ((i - 1) * k) xs)) [1..<Suc (Suc m)]) =
        take (m * k) xs @ take k (drop (m * k) xs)"
    using Suc by simp
  also have "\<dots> = take (m * k + k) xs"
    by (simp add: take_add)
  finally show ?case by (simp add: add.commute)
qed

lemma pageCount_covers: "n \<le> pageCount_of n * issuesPerPage"
  using pageCount_upper [of n] by (simp add: pageCount_of_def issuesPerPage_def mult.commute)

lemma filter_isIssue_length:
  "length (filter isIssue entries) = length entries - length (filter pull_request entries)"
  using sum_length_filter_compl [of pull_request entries]
  by (simp add: isIssue_def [abs_def])

section \<open>The loop\<close>

lemma io_log_cases:
  "io_log opts message t = (Inr (), t @ (if showLogs opts then [ConsoleLog message] else []))"
  by (simp add: io_log_def io_defs)

lemma getAllIssues_returns:
  "\<exists>issues d. getAllIssues env opts t = (Inr issues, t @ d) \<and> writes d = []"
proof -
  let ?rp = "\<lparr>rp_owner = repoOwner opts, rp_repo = repoName opts\<rparr>"
  show ?thesis
  proof (cases "repos_get env t ?rp")
    case (Inl m)
    then show ?thesis by (simp add: getAllIssues_cases)
  next
    case (Inr n)
    let ?t0 = "t @ [ReposGet ?rp (Inr n)]"
    obtain ps t1 where ip: "issuesPage env opts (page_numbers (pageCount_of n)) ?t0 = (ps, t1)"
      by (cases "issuesPage env opts (page_numbers (pageCount_of n)) ?t0") blast
    obtain d where d: "t1 = ?t0 @ d" "writes d = []"
      using issuesPage_history [of env opts "page_numbers (pageCount_of n)" ?t0] ip by auto
    show ?thesis
      using Inr ip d by (cases "rejections ps") (simp_all add: getAllIssues_cases Let_def writes_append)
  qed
qed

lemma triage_issue_writes:
  "\<exists>c' d. triage_issue env opts dryRun issue c t = (Inr c', t @ d) \<and>
          set (writes d) \<subseteq> {number issue} \<and> (dryRun \<longrightarrow> writes d = [])"
  by (cases "isClosingDown env opts issue t")
     (simp_all add: triage_issue_cases Let_def postComment_params_def updateIssue_params_def
        split: sum.split)

lemma triage_loop_writes:
  "\<exists>c' d. triage_loop env opts dryRun issues c t = (Inr c', t @ d) \<and>
          set (writes d) \<subseteq> set (map number issues) \<and> (dryRun \<longrightarrow> writes d = [])"
proof (induction issues arbitrary: c t)
  case Nil
  show ?case by (simp add: io_return_def)
next
  case (Cons issue issues)
  obtain c1 d1 where s1: "triage_issue env opts dryRun issue c t = (Inr c1, t @ d1)"
      "set (writes d1) \<subseteq> {number issue}" "dryRun \<longrightarrow> writes d1 = []"
    using triage_issue_writes by blast
  obtain c2 d2 where s2: "triage_loop env opts dryRun issues c1 (t @ d1) = (Inr c2, (t @ d1) @ d2)"
      "set (writes d2) \<subseteq> set (map number issues)" "dryRun \<longrightarrow> writes d2 = []"
    using Cons.IH by blast
  have "triage_loop env opts dryRun (issue # issues) c t = (Inr c2, t @ (d1 @ d2))"
    using s1(1) s2(1) by (simp add: io_bind_def)
  moreover have "set (writes (d1 @ d2)) \<subseteq> set (map number (issue # issues))"
    using s1(2) s2(2) by (auto simp: writes_append)
  moreover have "dryRun \<longrightarrow> writes (d1 @ d2) = []"
    using s1(3) s2(3) by (simp add: writes_append)
  ultimately show ?case by blast
qed

lemma triage_issue_counts:
  "\<exists>c' d. triage_issue env opts dryRun issue c t = (Inr c', t @ d) \<and>
          (c' = c \<or>
           c' = c\<lparr>markedStale := markedStale c + 1\<rparr> \<and> \<not> isClosingDown env opts issue t \<or>
           c' = c\<lparr>closed := closed c + 1\<rparr> \<and> isClosingDown env opts issue t)"
  by (cases "isClosingDown env opts issue t")
     (simp_all add: triage_issue_cases Let_def split: sum.split)

lemma triage_loop_total:
  "\<exists>c' d. triage_loop env opts dryRun issues c t = (Inr c', t @ d) \<and>
          markedStale c' + closed c' \<le> markedStale c + closed c + length issues"
proof (induction issues arbitrary: c t)
  case Nil
  show ?case by (simp add: io_return_def)
next
  case (Cons issue issues)
  obtain c1 d1 where s1: "triage_issue env opts dryRun issue c t = (Inr c1, t @ d1)"
      "c1 = c \<or> c1 = c\<lparr>markedStale := markedStale c + 1\<rparr> \<and> \<not> isClosingDown env opts issue t \<or>
       c1 = c\<lparr>closed := closed c + 1\<rparr> \<and> isClosingDown env opts issue t"
    using triage_issue_counts by blast
  obtain c2 d2 where s2: "triage_loop env opts dryRun issues c1 (t @ d1) = (Inr c2, (t @ d1) @ d2)"
      "markedStale c2 + closed c2 \<le> markedStale c1 + closed c1 + length issues"
    using Cons.IH by blast
  have "triage_loop env opts dryRun (issue # issues) c t = (Inr c2, t @ (d1 @ d2))"
    using s1(1) s2(1) by (simp add: io_bind_def)
  moreover have "markedStale c1 + closed c1 \<le> markedStale c + closed c + 1"
    using s1(2) by auto
  ultimately show ?case using s2(2) by fastforce
qed

lemma triage_issue_tally:
  "\<not> dryRun \<Longrightarrow>
   \<exists>c' d. triage_issue env opts dryRun issue c t = (Inr c', t @ d) \<and>
          markedStale c' = markedStale c + length (filter (\<lambda>ev. label_request ev \<and> accepted ev) d) \<and>
          closed c' = closed c + length (filter (\<lambda>ev. close_request ev \<and> accepted ev) d)"
  by (cases "isClosingDown env opts issue t")
     (simp_all add: triage_issue_cases Let_def updateIssue_params_def split: sum.split)

lemma triage_loop_tally:
  "\<not> dryRun \<Longrightarrow>
   \<exists>c' d. triage_loop env opts dryRun issues c t = (Inr c', t @ d) \<and>
          markedStale c' = markedStale c + length (filter (\<lambda>ev. label_request ev \<and> accepted ev) d) \<and>
          closed c' = closed c + length (filter (\<lambda>ev. close_request ev \<and> accepted ev) d)"
proof (induction issues arbitrary: c t)
  case Nil
  show ?case by (simp add: io_return_def)
next
  case (Cons issue issues)
  let ?L = "\<lambda>d. length (filter (\<lambda>ev. label_request ev \<and> accepted ev) d)"
  let ?C = "\<lambda>d. length (filter (\<lambda>ev. close_request ev \<and> accepted ev) d)"
  obtain c1 d1 where s1: "triage_issue env opts dryRun issue c t = (Inr c1, t @ d1)"
      "markedStale c1 = markedStale c + ?L d1" "closed c1 = closed c + ?C d1"
    using triage_issue_tally [OF Cons.prems] by blast
  obtain c2 d2 where s2: "triage_loop env opts dryRun issues c1 (t @ d1) = (Inr c2, (t @ d1) @ d2)"
      "markedStale c2 = markedStale c1 + ?L d2" "closed c2 = closed c1 + ?C d2"
    using Cons.IH [OF Cons.prems] by blast
  have "triage_loop env opts dryRun (issue # issues) c t = (Inr c2, t @ (d1 @ d2))"
    using s1(1) s2(1) by (simp add: io_bind_def)
  moreover have "markedStale c2 = markedStale c + ?L (d1 @ d2)"
    using s1(2) s2(2) by simp
  moreover have "closed c2 = closed c + ?C (d1 @ d2)"
    using s1(3) s2(3) by simp
  ultimately show ?case by blast
qed



section \<open>The run as a whole\<close>

lemma report_cases: "report opts c t = (Inr (), t @ report_lines opts c)"
  by (simp add: report_def report_lines_def io_log_cases io_defs)

lemma run_triage_cases:
  "run_triage env opts dryRun t =
     (case getAllIssues env opts t of
        (Inl e, t1) \<Rightarrow> (Inl e, t1)
      | (Inr allIssues, t1) \<Rightarrow>
          if allIssues = []
          then (Inr None, t1 @ (if showLogs opts then [ConsoleLog (no_issues_line opts)] else []))
          else (let t2 = t1 @ (if showLogs opts
                               then [ConsoleLog (total_issues_line opts (length allIssues))]
                               else []);
                    staleIssues = filterOldIssues env opts allIssues t2
                in case triage_loop env opts dryRun staleIssues \<lparr>markedStale = 0, closed = 0\<rparr> t2 of
                     (Inl e, t3) \<Rightarrow> (Inl e, t3)
                   | (Inr c, t3) \<Rightarrow> (Inr (Some (staleIssues, c)), t3)))"
  by (simp add: run_triage_def io_log_cases io_defs Let_def split: prod.split sum.split)

lemma run_cases:
  "run env opts dryRun t =
     (case run_triage env opts dryRun t of
        (Inl e, t1) \<Rightarrow> (Inl e, t1)
      | (Inr None, t1) \<Rightarrow> (Inr (), t1)
      | (Inr (Some (staleIssues, c)), t1) \<Rightarrow> (Inr (), t1 @ report_lines opts c))"
  by (simp add: run_def report_cases io_defs split: prod.split sum.split option.split)

lemma run_triage_returns:
  assumes "getAllIssues env opts t = (Inr allIssues, t1)"
  shows "allIssues = [] \<and>
           run_triage env opts dryRun t =
             (Inr None, t1 @ (if showLogs opts then [ConsoleLog (no_issues_line opts)] else [])) \<or>
         allIssues \<noteq> [] \<and>
           (\<exists>c d. triage_loop env opts dryRun
                     (filterOldIssues env opts allIssues (snd (io_log opts (total_issues_line opts (length allIssues)) t1)))
                     \<lparr>markedStale = 0, closed = 0\<rparr>
                     (snd (io_log opts (total_issues_line opts (length allIssues)) t1)) =
                   (Inr c, snd (io_log opts (total_issues_line opts (length allIssues)) t1) @ d) \<and>
                  run_triage env opts dryRun t =
                    (Inr (Some (filterOldIssues env opts allIssues
                                  (snd (io_log opts (total_issues_line opts (length allIssues)) t1)), c)),
                     snd (io_log opts (total_issues_line opts (length allIssues)) t1) @ d))"
proof (cases "allIssues = []")
  case True
  then show ?thesis using assms by (simp add: run_triage_cases)
next
  case False
  let ?t2 = "snd (io_log opts (total_issues_line opts (length allIssues)) t1)"
  let ?stale = "filterOldIssues env opts allIssues ?t2"
  obtain c d where loop: "triage_loop env opts dryRun ?stale \<lparr>markedStale = 0, closed = 0\<rparr> ?t2 =
      (Inr c, ?t2 @ d)"
    using triage_loop_returns by blast
  have "run_triage env opts dryRun t = (Inr (Some (?stale, c)), ?t2 @ d)"
    using assms False loop by (simp add: run_triage_cases io_log_cases Let_def)
  then show ?thesis using False loop by blast
qed

lemma run_returns: "\<exists>d. run env opts dryRun t = (Inr (), t @ d)"
proof -
  obtain allIssues d0 where f: "getAllIssues env opts t = (Inr allIssues, t @ d0)"
    using getAllIssues_returns by blast
  from run_triage_returns [OF f, of dryRun] show ?thesis
    by (auto simp: run_cases io_log_cases)
qed

section \<open>Outcomes of a round and of the fetch\<close>

lemma triage_issue_success:
  "\<exists>c' d. triage_issue env opts dryRun issue c t = (Inr c', t @ d) \<and>
          (\<forall>q res. UpdateIssue q res \<in> set d \<longrightarrow>
             q = updateIssue_params opts issue (isClosingDown env opts issue t)) \<and>
          (\<not> dryRun \<and> c' \<noteq> c \<longrightarrow>
             (\<exists>message.
                d = [CreateComment (postComment_params opts issue message) (Inr ()),
                     UpdateIssue (updateIssue_params opts issue (isClosingDown env opts issue t))
                       (Inr ())]))"
  by (cases "isClosingDown env opts issue t")
     (auto simp: triage_issue_cases Let_def split: sum.split)

lemma page_answers_append: "page_answers (h @ h') = page_answers h @ page_answers h'"
  by (induction h rule: page_answers.induct) simp_all

lemma issuesPage_answers:
  "\<exists>d. issuesPage env opts pages t =
         (map (map_sum Error (filter isIssue)) (page_answers d), t @ d) \<and>
       page_requests d = map (listForRepo_params opts) pages \<and>
       (\<forall>ev\<in>set d. \<exists>p r. ev = ListForRepo p r)"
proof (induction pages arbitrary: t)
  case Nil
  show ?case by simp
next
  case (Cons i pages)
  let ?ev = "ListForRepo (listForRepo_params opts i)
               (issues_listForRepo env t (listForRepo_params opts i))"
  obtain d where d: "issuesPage env opts pages (t @ [?ev]) =
        (map (map_sum Error (filter isIssue)) (page_answers d), (t @ [?ev]) @ d)"
      "page_requests d = map (listForRepo_params opts) pages"
      "\<forall>ev\<in>set d. \<exists>p r. ev = ListForRepo p r"
    using Cons.IH by blast
  have "issuesPage env opts (i # pages) t =
        (map (map_sum Error (filter isIssue)) (page_answers (?ev # d)), t @ (?ev # d))"
    using d(1) by (simp add: getIssuesForPage_cases)
  moreover have "page_requests (?ev # d) = map (listForRepo_params opts) (i # pages)"
    using d(2) by simp
  moreover have "\<forall>ev\<in>set (?ev # d). \<exists>p r. ev = ListForRepo p r"
    using d(3) by simp
  ultimately show ?case by blast
qed

lemma rejections_map_sum:
  "rejections (map (map_sum Error f) answers) = [] \<longleftrightarrow> (\<forall>a\<in>set answers. \<not> isl a)"
proof (induction answers)
  case Nil
  show ?case by simp
next
  case (Cons a answers)
  then show ?case by (cases a) simp_all
qed

lemma fulfilled_map_sum:
  "fulfilled (map (map_sum Error f) (map Inr pages)) = map f pages"
  by (induction pages) simp_all

lemma all_Inr: "\<forall>a\<in>set answers. \<not> isl a \<Longrightarrow> answers = map Inr (map projr answers)"
proof (induction answers)
  case Nil
  show ?case by simp
next
  case (Cons a answers)
  then show ?case by (cases a) simp_all
qed

lemma getAllIssues_history:
  fixes env opts t
  defines "rp \<equiv> \<lparr>rp_owner = repoOwner opts, rp_repo = repoName opts\<rparr>"
  shows "(\<exists>m. repos_get env t rp = Inl m \<and>
              getAllIssues env opts t =
                (Inr [], t @ [ReposGet rp (Inl m), CoreError (fetch_error_line m)])) \<or>
         (\<exists>n d. repos_get env t rp = Inr n \<and>
              page_requests d = map (listForRepo_params opts) (page_numbers (pageCount_of n)) \<and>
              (\<forall>ev\<in>set d. \<exists>p r. ev = ListForRepo p r) \<and>
              ((\<forall>a\<in>set (page_answers d). \<not> isl a) \<and>
               getAllIssues env opts t =
                 (Inr (concat (map (filter isIssue) (map projr (page_answers d)))),
                  t @ ReposGet rp (Inr n) # d) \<or>
               (\<exists>a\<in>set (page_answers d). isl a) \<and>
               (\<exists>m. getAllIssues env opts t =
                 (Inr [], t @ ReposGet rp (Inr n) # d @ [CoreError (fetch_error_line m)]))))"
proof (cases "repos_get env t rp")
  case (Inl m)
  then show ?thesis by (simp add: getAllIssues_cases rp_def Let_def)
next
  case (Inr n)
  let ?t0 = "t @ [ReposGet rp (Inr n)]"
  obtain d where d: "issuesPage env opts (page_numbers (pageCount_of n)) ?t0 =
        (map (map_sum Error (filter isIssue)) (page_answers d), ?t0 @ d)"
      "page_requests d = map (listForRepo_params opts) (page_numbers (pageCount_of n))"
      "\<forall>ev\<in>set d. \<exists>p r. ev = ListForRepo p r"
    using issuesPage_answers by blast
  let ?ps = "map (map_sum Error (filter isIssue)) (page_answers d)"
  show ?thesis
  proof (cases "rejections ?ps")
    case Nil
    then have ok: "\<forall>a\<in>set (page_answers d). \<not> isl a"
      by (simp add: rejections_map_sum)
    then have "page_answers d = map Inr (map projr (page_answers d))"
      by (rule all_Inr)
    then have "fulfilled ?ps = map (filter isIssue) (map projr (page_answers d))"
      using fulfilled_map_sum [of "filter isIssue" "map projr (page_answers d)"] by simp
    then have "getAllIssues env opts t =
        (Inr (concat (map (filter isIssue) (map projr (page_answers d)))), t @ ReposGet rp (Inr n) # d)"
      using Inr d(1) Nil by (simp add: getAllIssues_cases rp_def Let_def)
    then show ?thesis using Inr d(2,3) ok by blast
  next
    case (Cons e es)
    then have "\<not> (\<forall>a\<in>set (page_answers d). \<not> isl a)"
      using rejections_map_sum [of "filter isIssue" "page_answers d"] by simp
    then have bad: "\<exists>a\<in>set (page_answers d). isl a" by blast
    have "\<exists>m. getAllIssues env opts t =
        (Inr [], t @ ReposGet rp (Inr n) # d @ [CoreError (fetch_error_line m)])"
      using Inr d(1) Cons by (auto simp: getAllIssues_cases rp_def Let_def)
    then show ?thesis using Inr d(2,3) bad by blast
  qed
qed

lemma getAllIssues_try_history:
  fixes env opts t
  defines "rp \<equiv> \<lparr>rp_owner = repoOwner opts, rp_repo = repoName opts\<rparr>"
  shows "(\<exists>m. repos_get env t rp = Inl m \<and>
              getAllIssues_try env opts t = (Inl (Error m), t @ [ReposGet rp (Inl m)])) \<or>
         (\<exists>n d. repos_get env t rp = Inr n \<and>
              page_requests d = map (listForRepo_params opts) (page_numbers (pageCount_of n)) \<and>
              (\<forall>ev\<in>set d. \<exists>p r. ev = ListForRepo p r) \<and>
              ((\<forall>a\<in>set (page_answers d). \<not> isl a) \<and>
               getAllIssues_try env opts t =
                 (Inr (concat (map (filter isIssue) (map projr (page_answers d)))),
                  t @ ReposGet rp (Inr n) # d) \<or>
               (\<exists>a\<in>set (page_answers d). isl a) \<and>
               (\<exists>e. getAllIssues_try env opts t = (Inl e, t @ ReposGet rp (Inr n) # d))))"
proof (cases "repos_get env t rp")
  case (Inl m)
  then show ?thesis by (simp add: getAllIssues_try_cases rp_def Let_def)
next
  case (Inr n)
  let ?t0 = "t @ [ReposGet rp (Inr n)]"
  obtain d where d: "issuesPage env opts (page_numbers (pageCount_of n)) ?t0 =
        (map (map_sum Error (filter isIssue)) (page_answers d), ?t0 @ d)"
      "page_requests d = map (listForRepo_params opts) (page_numbers (pageCount_of n))"
      "\<forall>ev\<in>set d. \<exists>p r. ev = ListForRepo p r"
    using issuesPage_answers by blast
  let ?ps = "map (map_sum Error (filter isIssue)) (page_answers d)"
  show ?thesis
  proof (cases "rejections ?ps")
    case Nil
    then have ok: "\<forall>a\<in>set (page_answers d). \<not> isl a"
      by (simp add: rejections_map_sum)
    then have "page_answers d = map Inr (map projr (page_answers d))"
      by (rule all_Inr)
    then have "fulfilled ?ps = map (filter isIssue) (map projr (page_answers d))"
      using fulfilled_map_sum [of "filter isIssue" "map projr (page_answers d)"] by simp
    then have "getAllIssues_try env opts t =
        (Inr (concat (map (filter isIssue) (map projr (page_answers d)))), t @ ReposGet rp (Inr n) # d)"
      using Inr d(1) Nil by (simp add: getAllIssues_try_cases rp_def Let_def)
    then show ?thesis using Inr d(2,3) ok by blast
  next
    case (Cons e es)
    then have "\<not> (\<forall>a\<in>set (page_answers d). \<not> isl a)"
      using rejections_map_sum [of "filter isIssue" "page_answers d"] by simp
    then have bad: "\<exists>a\<in>set (page_answers d). isl a" by blast
    have "\<exists>e. getAllIssues_try env opts t = (Inl e, t @ ReposGet rp (Inr n) # d)"
      using Inr d(1) Cons by (auto simp: getAllIssues_try_cases rp_def Let_def)
    then show ?thesis using Inr d(2,3) bad by blast
  qed
qed

lemma rejected_read_pages:
  "\<forall>ev\<in>set d. \<exists>p r. ev = ListForRepo p r \<Longrightarrow>
   (\<exists>ev\<in>set d. rejected_read ev) \<longleftrightarrow> (\<exists>a\<in>set (page_answers d). isl a)"
proof (induction d rule: page_answers.induct)
  case 1
  show ?case by simp
next
  case (2 p r h)
  then show ?case by (cases r) auto
qed auto

lemma paged_issuesPage:
  assumes "\<forall>h p. issues_listForRepo env h p =
              Inr (take (lp_per_page p) (drop ((lp_page p - 1) * lp_per_page p) entries))"
  shows "fst (issuesPage env opts pages t) =
           map (\<lambda>i. Inr (filter isIssue (take issuesPerPage (drop ((i - 1) * issuesPerPage) entries))))
             pages"
  using assms
  by (induction pages arbitrary: t)
     (simp_all add: getIssuesForPage_cases listForRepo_params_def case_prod_beta)

lemma rejections_Inr: "rejections (map (\<lambda>i. Inr (f i)) pages) = []"
  by (induction pages) simp_all

lemma fulfilled_Inr: "fulfilled (map (\<lambda>i. Inr (f i)) pages) = map f pages"
  by (induction pages) simp_all

lemma paged_getAllIssues:
  assumes meta: "\<forall>h. repos_get env h \<lparr>rp_owner = repoOwner opts, rp_repo = repoName opts\<rparr> =
              Inr (length entries)"
    and pages: "\<forall>h p. issues_listForRepo env h p =
              Inr (take (lp_per_page p) (drop ((lp_page p - 1) * lp_per_page p) entries))"
  shows "fst (getAllIssues env opts t) = Inr (filter isIssue entries)"
proof -
  let ?rp = "\<lparr>rp_owner = repoOwner opts, rp_repo = repoName opts\<rparr>"
  let ?m = "pageCount_of (length entries)"
  let ?t0 = "t @ [ReposGet ?rp (Inr (length entries))]"
  let ?page = "\<lambda>i. take issuesPerPage (drop ((i - 1) * issuesPerPage) entries)"
  obtain ps t1 where ip: "issuesPage env opts (page_numbers ?m) ?t0 = (ps, t1)"
    by (cases "issuesPage env opts (page_numbers ?m) ?t0") blast
  have ps: "ps = map (\<lambda>i. Inr (filter isIssue (?page i))) (page_numbers ?m)"
    using paged_issuesPage [OF pages, of opts "page_numbers ?m" ?t0] ip by simp
  have "concat (map (\<lambda>i. filter isIssue (?page i)) (page_numbers ?m)) =
        filter isIssue (concat (map ?page (page_numbers ?m)))"
    by (simp add: filter_concat comp_def)
  also have "concat (map ?page (page_numbers ?m)) = take (?m * issuesPerPage) entries"
    unfolding page_numbers_def by (rule pages_concat)
  also have "\<dots> = entries"
    using pageCount_covers [of "length entries"] by simp
  finally have all: "concat (map (\<lambda>i. filter isIssue (?page i)) (page_numbers ?m)) =
      filter isIssue entries" .
  have "getAllIssues env opts t = (Inr (concat (fulfilled ps)), t1)"
    using meta ip ps by (simp add: getAllIssues_cases Let_def rejections_Inr)
  then show ?thesis
    using ps all by (simp add: fulfilled_Inr)
qed

lemma options_closeComment:
  "closeComment (options getInput toNumber owner name) =
     (if getInput ''staleComment'' = [] then closeCommentDefault else getInput ''staleComment'')"
  by (simp add: options_def)


lemma triage_issue_counted:
  assumes "triage_issue env opts dryRun issue c t = (Inr c', t')" and "c' \<noteq> c"
  shows "fst (postComment env opts dryRun issue
                (if isClosingDown env opts issue t then closeComment opts else staleComment opts) t) =
           Inr True \<and>
         fst (updateIssue env opts dryRun issue (isClosingDown env opts issue t)
                (snd (postComment env opts dryRun issue
                   (if isClosingDown env opts issue t then closeComment opts
                    else staleComment opts) t))) = Inr True"
  using assms
  by (cases "isClosingDown env opts issue t")
     (auto simp: triage_issue_catch triage_try_cases split: prod.splits sum.splits if_splits)

lemma triage_issue_post_failed:
  assumes "postComment env opts dryRun issue
             (if isClosingDown env opts issue t then closeComment opts else staleComment opts) t =
           (Inr False, t1)"
  shows "triage_issue env opts dryRun issue c t = (Inr c, t1 @ [CoreWarning (post_failed issue)])"
  using assms
  by (cases "isClosingDown env opts issue t") (simp_all add: triage_issue_catch triage_try_cases)

lemma triage_issue_comment_rejected:
  assumes "\<not> dryRun"
    and "fst (generateMessage env issue
               (if isClosingDown env opts issue t then closeComment opts else staleComment opts) t) =
         Inr message"
    and "issues_createComment env t (postComment_params opts issue message) = Inl m"
  shows "triage_issue env opts dryRun issue c t =
           (Inr c, t @ [CreateComment (postComment_params opts issue message) (Inl m),
                        CoreError (comment_error_line issue m),
                        CoreWarning (post_failed issue)])"
  using assms
  by (cases "isClosingDown env opts issue t") (simp_all add: triage_issue_cases Let_def)



lemma writes_report_lines: "writes (report_lines opts c) = []"
  by (simp add: report_lines_def)

lemma run_writes:
  assumes f: "getAllIssues env opts t = (Inr allIssues, t1)"
    and r: "run env opts dryRun t = (r, t')"
  shows "set (writes (drop (length t) t')) \<subseteq>
           set (map number (filterOldIssues env opts allIssues
                  (snd (io_log opts (total_issues_line opts (length allIssues)) t1)))) \<and>
         (dryRun \<longrightarrow> writes (drop (length t) t') = [])"
proof -
  obtain issues0 d0 where f0: "getAllIssues env opts t = (Inr issues0, t @ d0)" "writes d0 = []"
    using getAllIssues_returns by blast
  have t1: "t1 = t @ d0" using f f0(1) by simp
  let ?t2 = "snd (io_log opts (total_issues_line opts (length allIssues)) t1)"
  let ?stale = "filterOldIssues env opts allIssues ?t2"
  have t2: "?t2 = t @ d0 @ (if showLogs opts
                             then [ConsoleLog (total_issues_line opts (length allIssues))] else [])"
    by (simp add: io_log_cases t1)
  show ?thesis
  proof (cases "allIssues = []")
    case True
    then have "run env opts dryRun t =
        (Inr (), t @ d0 @ (if showLogs opts then [ConsoleLog (no_issues_line opts)] else []))"
      using f t1 by (simp add: run_cases run_triage_cases)
    then show ?thesis using r f0(2) by (auto simp: writes_append)
  next
    case False
    obtain c d where w: "triage_loop env opts dryRun ?stale \<lparr>markedStale = 0, closed = 0\<rparr> ?t2 =
        (Inr c, ?t2 @ d)" "set (writes d) \<subseteq> set (map number ?stale)" "dryRun \<longrightarrow> writes d = []"
      using triage_loop_writes by blast
    from run_triage_returns [OF f, of dryRun] False w(1)
    have "run_triage env opts dryRun t = (Inr (Some (?stale, c)), ?t2 @ d)"
      by auto
    then have "run env opts dryRun t = (Inr (), ?t2 @ d @ report_lines opts c)"
      by (simp add: run_cases)
    then have "t' = t @ (d0 @ (if showLogs opts
                             then [ConsoleLog (total_issues_line opts (length allIssues))] else []) @
                    d @ report_lines opts c)"
      using r t2 by simp
    then have "writes (drop (length t) t') = writes d"
      using f0(2) by (simp add: writes_append writes_report_lines)
    then show ?thesis using w(2,3) by simp
  qed
qed

section \<open>A dry run beside a live run\<close>

lemma logs_of_append: "logs_of (h @ h') = logs_of h @ logs_of h'"
  by (simp add: logs_of_def)

lemma logs_of_idem: "logs_of (logs_of h) = logs_of h"
  by (simp add: logs_of_def)

lemma isClosingDown_clock:
  "clock env h = clock env' h' \<Longrightarrow> isClosingDown env opts issue h = isClosingDown env' opts issue h'"
  by (simp add: isClosingDown_def isOlderThan_def)

lemma generateMessage_clock:
  "clock env h = clock env' h' \<Longrightarrow>
   fst (generateMessage env issue tmpl h) = fst (generateMessage env' issue tmpl h')"
  by (simp add: generateMessage_user getDaysSince_def split: option.split)

lemma triage_issue_dry_live:
  assumes c1: "\<forall>h p. issues_createComment env h p = Inr ()"
    and c2: "\<forall>h p. issues_update env h p = Inr ()"
    and clk: "clock env hlive = clock env hdry"
  shows "\<exists>c' dl. triage_issue env opts False issue c hlive = (Inr c', hlive @ dl) \<and>
                 triage_issue env opts True issue c hdry = (Inr c', hdry @ logs_of dl)"
proof -
  have cl: "isClosingDown env opts issue hlive = isClosingDown env opts issue hdry"
    using clk by (rule isClosingDown_clock)
  have gm: "\<And>tmpl. fst (generateMessage env issue tmpl hlive) = fst (generateMessage env issue tmpl hdry)"
    using clk by (rule generateMessage_clock)
  show ?thesis
    by (cases "isClosingDown env opts issue hdry")
       (simp_all add: triage_issue_cases Let_def cl gm c1 c2 logs_of_def split: sum.split)
qed

lemma triage_loop_dry_live:
  assumes c1: "\<forall>h p. issues_createComment env h p = Inr ()"
    and c2: "\<forall>h p. issues_update env h p = Inr ()"
    and clk: "\<forall>h h'. logs_of h = logs_of h' \<longrightarrow> clock env h = clock env h'"
  shows "logs_of hlive = logs_of hdry \<Longrightarrow>
         \<exists>c' dl. triage_loop env opts False issues c hlive = (Inr c', hlive @ dl) \<and>
                 triage_loop env opts True issues c hdry = (Inr c', hdry @ logs_of dl)"
proof (induction issues arbitrary: c hlive hdry)
  case Nil
  show ?case by (simp add: io_return_def logs_of_def)
next
  case (Cons issue issues)
  have "clock env hlive = clock env hdry" using clk Cons.prems by blast
  then obtain c1' d1 where s1: "triage_issue env opts False issue c hlive = (Inr c1', hlive @ d1)"
      "triage_issue env opts True issue c hdry = (Inr c1', hdry @ logs_of d1)"
    using triage_issue_dry_live [OF c1 c2] by blast
  have "logs_of (hlive @ d1) = logs_of (hdry @ logs_of d1)"
    using Cons.prems by (simp add: logs_of_append logs_of_idem)
  then obtain c2' d2 where s2:
      "triage_loop env opts False issues c1' (hlive @ d1) = (Inr c2', (hlive @ d1) @ d2)"
      "triage_loop env opts True issues c1' (hdry @ logs_of d1) = (Inr c2', (hdry @ logs_of d1) @ logs_of d2)"
    using Cons.IH by blast
  have "triage_loop env opts False (issue # issues) c hlive = (Inr c2', hlive @ (d1 @ d2))"
    using s1(1) s2(1) by (simp add: io_bind_def)
  moreover have "triage_loop env opts True (issue # issues) c hdry = (Inr c2', hdry @ logs_of (d1 @ d2))"
    using s1(2) s2(2) by (simp add: io_bind_def logs_of_append)
  ultimately show ?case by blast
qed

lemma logs_of_no_writes: "writes d = [] \<Longrightarrow> logs_of d = d"
proof (induction d)
  case Nil
  show ?case by (simp add: logs_of_def)
next
  case (Cons ev d)
  then show ?case by (cases "written ev") (simp_all add: logs_of_def)
qed

lemma logs_of_report_lines: "logs_of (report_lines opts c) = report_lines opts c"
  by (rule logs_of_no_writes) (rule writes_report_lines)

lemma run_dry_live:
  assumes c1: "\<forall>h p. issues_createComment env h p = Inr ()"
    and c2: "\<forall>h p. issues_update env h p = Inr ()"
    and clk: "\<forall>h h'. logs_of h = logs_of h' \<longrightarrow> clock env h = clock env h'"
  shows "\<exists>r dl. run_triage env opts False t = (Inr r, t @ dl) \<and>
                run_triage env opts True t = (Inr r, t @ logs_of dl) \<and>
                (\<exists>dl'. run env opts False t = (Inr (), t @ dl') \<and>
                        run env opts True t = (Inr (), t @ logs_of dl'))"
proof -
  obtain allIssues d0 where f: "getAllIssues env opts t = (Inr allIssues, t @ d0)"
      and w0: "writes d0 = []"
    using getAllIssues_returns by blast
  have l0: "logs_of d0 = d0" using w0 by (rule logs_of_no_writes)
  show ?thesis
  proof (cases "allIssues = []")
    case True
    let ?d = "d0 @ (if showLogs opts then [ConsoleLog (no_issues_line opts)] else [])"
    have l: "logs_of ?d = ?d" using l0 by (simp add: logs_of_append) (simp add: logs_of_def)
    have "\<And>dry. run_triage env opts dry t = (Inr None, t @ ?d)"
      using f True by (simp add: run_triage_cases)
    moreover have "\<And>dry. run env opts dry t = (Inr (), t @ ?d)"
      using f True by (simp add: run_cases run_triage_cases)
    ultimately show ?thesis using l by metis
  next
    case False
    let ?d1 = "d0 @ (if showLogs opts
                     then [ConsoleLog (total_issues_line opts (length allIssues))] else [])"
    let ?t2 = "t @ ?d1"
    let ?stale = "filterOldIssues env opts allIssues ?t2"
    have l1: "logs_of ?d1 = ?d1" using l0 by (simp add: logs_of_append) (simp add: logs_of_def)
    obtain c dl where loop:
        "triage_loop env opts False ?stale \<lparr>markedStale = 0, closed = 0\<rparr> ?t2 = (Inr c, ?t2 @ dl)"
        "triage_loop env opts True ?stale \<lparr>markedStale = 0, closed = 0\<rparr> ?t2 = (Inr c, ?t2 @ logs_of dl)"
      using triage_loop_dry_live [OF c1 c2 clk, of ?t2 ?t2] by blast
    have a: "run_triage env opts False t = (Inr (Some (?stale, c)), t @ (?d1 @ dl))"
      using f False loop(1) by (simp add: run_triage_cases Let_def)
    have b: "run_triage env opts True t = (Inr (Some (?stale, c)), t @ logs_of (?d1 @ dl))"
      using f False loop(2) l1 by (simp add: run_triage_cases Let_def logs_of_append)
    have a': "run env opts False t = (Inr (), t @ (?d1 @ dl @ report_lines opts c))"
      using a by (simp add: run_cases)
    have b': "run env opts True t = (Inr (), t @ logs_of (?d1 @ dl @ report_lines opts c))"
      using b by (simp add: run_cases logs_of_append logs_of_report_lines)
    show ?thesis using a b a' b' by blast
  qed
qed

lemma tally_no_writes:
  "writes d = [] \<Longrightarrow>
   filter (\<lambda>ev. label_request ev \<and> accepted ev) d = [] \<and>
   filter (\<lambda>ev. close_request ev \<and> accepted ev) d = []"
proof (induction d)
  case Nil
  show ?case by simp
next
  case (Cons ev d)
  then show ?case by (cases ev) (simp_all split: option.splits)
qed

lemma run_triage_tally:
  assumes "run_triage env opts False t = (Inr (Some (staleIssues, c)), t1)"
  shows "markedStale c =
           length (filter (\<lambda>ev. label_request ev \<and> accepted ev) (drop (length t) t1)) \<and>
         closed c =
           length (filter (\<lambda>ev. close_request ev \<and> accepted ev) (drop (length t) t1))"
proof -
  let ?L = "\<lambda>ev. label_request ev \<and> accepted ev"
  let ?C = "\<lambda>ev. close_request ev \<and> accepted ev"
  obtain allIssues d0 where f: "getAllIssues env opts t = (Inr allIssues, t @ d0)"
      and w0: "writes d0 = []"
    using getAllIssues_returns by blast
  let ?d1 = "d0 @ (if showLogs opts
                   then [ConsoleLog (total_issues_line opts (length allIssues))] else [])"
  let ?t2 = "snd (io_log opts (total_issues_line opts (length allIssues)) (t @ d0))"
  have t2: "?t2 = t @ ?d1" by (simp add: io_log_cases)
  have none: "filter ?L ?d1 = [] \<and> filter ?C ?d1 = []"
    using tally_no_writes [OF w0] by simp
  let ?stale = "filterOldIssues env opts allIssues ?t2"
  from run_triage_returns [OF f, of False] assms
  obtain d where l: "triage_loop env opts False ?stale \<lparr>markedStale = 0, closed = 0\<rparr> ?t2 =
        (Inr c, ?t2 @ d)" "t1 = ?t2 @ d"
    by auto
  have live: "\<not> False" by simp
  obtain c' d' where k: "triage_loop env opts False ?stale \<lparr>markedStale = 0, closed = 0\<rparr> ?t2 =
        (Inr c', ?t2 @ d')"
      "markedStale c' = markedStale \<lparr>markedStale = 0, closed = 0\<rparr> + length (filter ?L d')"
      "closed c' = closed \<lparr>markedStale = 0, closed = 0\<rparr> + length (filter ?C d')"
    using triage_loop_tally [OF live] by blast
  have same: "c' = c" "d' = d" using l(1) k(1) by simp_all
  have "drop (length t) t1 = ?d1 @ d" using l(2) t2 by simp
  then show ?thesis using k(2,3) same none by simp
qed

lemma getSubstitution_plain:
  "\<not> has_pattern r \<Longrightarrow> getSubstitution matched str pos r = r"
  by (induction matched str pos r rule: getSubstitution.induct) auto

lemma js_replace_plain:
  "\<not> has_pattern r \<Longrightarrow> js_replace s p r = replace_first s p r"
  by (simp add: js_replace_def replace_first_def getSubstitution_plain split: option.split)

lemma generateMessage_plain:
  assumes "user issue = Some login" and "\<not> has_pattern login"
  shows "generateMessage env issue template t =
           (Inr (replace_first
                   (replace_first template DAYS_OLD
                      (string_of_nat (getDaysSince env (updated_at issue) t)))
                   AUTHOR login), t)"
  using assms
  by (simp add: generateMessage_user js_replace_plain js_replace_literal string_of_nat_no_dollar)

section \<open>Rounds that go through\<close>







section \<open>The claims\<close>



text \<open>
  C2. When the tracker rejects the comment of an issue, the round for that issue logs the
  error and the warning, sends no update and leaves the counters as they were; whenever
  \<^verbatim>\<open>_postComment\<close> reports failure, nothing but the warning follows; every exception of
  the \<^verbatim>\<open>try\<close> block ends as a warning; the loop goes on with the next issue; and neither
  the loop nor the run ever ends in an exception.
\<close>

theorem per_issue_failure_isolated:
  "(\<forall>message m.
      \<not> dryRun \<and>
      fst (generateMessage env issue
             (if isClosingDown env opts issue t then closeComment opts else staleComment opts) t) =
        Inr message \<and>
      issues_createComment env t (postComment_params opts issue message) = Inl m \<longrightarrow>
      triage_issue env opts dryRun issue c t =
        (Inr c, t @ [CreateComment (postComment_params opts issue message) (Inl m),
                     CoreError (comment_error_line issue m),
                     CoreWarning (post_failed issue)])) \<and>
   (\<forall>t1. postComment env opts dryRun issue
            (if isClosingDown env opts issue t then closeComment opts else staleComment opts) t =
          (Inr False, t1) \<longrightarrow>
      triage_issue env opts dryRun issue c t = (Inr c, t1 @ [CoreWarning (post_failed issue)])) \<and>
   (\<forall>e t1. triage_try env opts dryRun issue c t = (Inl e, t1) \<longrightarrow>
      triage_issue env opts dryRun issue c t = (Inr c, t1 @ [CoreWarning e])) \<and>
   (\<exists>c1 d. triage_issue env opts dryRun issue c t = (Inr c1, t @ d) \<and>
      triage_loop env opts dryRun (issue # rest) c t =
        triage_loop env opts dryRun rest c1 (t @ d)) \<and>
   (\<exists>c' d. triage_loop env opts dryRun issues c t = (Inr c', t @ d)) \<and>
   (\<exists>d. run env opts dryRun t = (Inr (), t @ d))"
proof -
  have a: "\<forall>message m.
      \<not> dryRun \<and>
      fst (generateMessage env issue
             (if isClosingDown env opts issue t then closeComment opts else staleComment opts) t) =
        Inr message \<and>
      issues_createComment env t (postComment_params opts issue message) = Inl m \<longrightarrow>
      triage_issue env opts dryRun issue c t =
        (Inr c, t @ [CreateComment (postComment_params opts issue message) (Inl m),
                     CoreError (comment_error_line issue m),
                     CoreWarning (post_failed issue)])"
    using triage_issue_comment_rejected by blast
  have b: "\<forall>t1. postComment env opts dryRun issue
            (if isClosingDown env opts issue t then closeComment opts else staleComment opts) t =
          (Inr False, t1) \<longrightarrow>
      triage_issue env opts dryRun issue c t = (Inr c, t1 @ [CoreWarning (post_failed issue)])"
    using triage_issue_post_failed by blast
  have c: "\<forall>e t1. triage_try env opts dryRun issue c t = (Inl e, t1) \<longrightarrow>
      triage_issue env opts dryRun issue c t = (Inr c, t1 @ [CoreWarning e])"
    by (simp add: triage_issue_catch)
  have d: "\<exists>c1 d. triage_issue env opts dryRun issue c t = (Inr c1, t @ d) \<and>
      triage_loop env opts dryRun (issue # rest) c t =
        triage_loop env opts dryRun rest c1 (t @ d)"
    using triage_issue_returns [of env opts dryRun issue c t] triage_loop_Cons by blast
  show ?thesis
    using a b c d triage_loop_returns [of env opts dryRun issues c t]
      run_returns [of env opts dryRun t]
    by blast
qed

theorem per_issue_failure_isolated_witness:
  "triage_issue (comment_refused 2 demo_entries) demo_opts False
     (demo_issue 2 40 ''alice'' False) \<lparr>markedStale = 0, closed = 0\<rparr> [] =
     (Inr \<lparr>markedStale = 0, closed = 0\<rparr>,
      [CreateComment (postComment_params demo_opts (demo_issue 2 40 ''alice'' False) ''40 @alice'')
         (Inl ''Forbidden''),
       CoreError (comment_error_line (demo_issue 2 40 ''alice'' False) ''Forbidden''),
       CoreWarning (post_failed (demo_issue 2 40 ''alice'' False))]) \<and>
   fst (run_triage (comment_refused 2 demo_entries) demo_opts False []) =
     Inr (Some ([demo_issue 2 40 ''alice'' False, demo_issue 3 70 ''bob'' False],
                \<lparr>markedStale = 0, closed = 1\<rparr>)) \<and>
   fst (run (comment_refused 2 demo_entries) demo_opts False []) = Inr ()"
proof -
  let ?E = "comment_refused 2 demo_entries"
  let ?i2 = "demo_issue 2 40 ''alice'' False"
  have live: "\<not> False" by simp
  have msg: "fst (generateMessage ?E ?i2
               (if isClosingDown ?E demo_opts ?i2 [] then closeComment demo_opts
                else staleComment demo_opts) []) = Inr ''40 @alice''"
    by code_simp
  have refused: "issues_createComment ?E [] (postComment_params demo_opts ?i2 ''40 @alice'') =
      Inl ''Forbidden''"
    by (simp add: comment_refused_def postComment_params_def demo_issue_def)
  note inst = per_issue_failure_isolated
    [of False ?E ?i2 demo_opts "[]" "\<lparr>markedStale = 0, closed = 0\<rparr>" "[]" "[]"]
  from inst live msg refused
  have a: "triage_issue ?E demo_opts False ?i2 \<lparr>markedStale = 0, closed = 0\<rparr> [] =
     (Inr \<lparr>markedStale = 0, closed = 0\<rparr>,
      [] @ [CreateComment (postComment_params demo_opts ?i2 ''40 @alice'') (Inl ''Forbidden''),
       CoreError (comment_error_line ?i2 ''Forbidden''),
       CoreWarning (post_failed ?i2)])"
    by blast
  from inst obtain d where "run ?E demo_opts False [] = (Inr (), [] @ d)"
    by blast
  then have b: "fst (run ?E demo_opts False []) = Inr ()" by simp
  have c: "fst (run_triage ?E demo_opts False []) =
     Inr (Some ([?i2, demo_issue 3 70 ''bob'' False], \<lparr>markedStale = 0, closed = 1\<rparr>))"
    by code_simp
  show ?thesis using a b c by simp
qed

text \<open>
  C3. When the repository query or a page request is rejected, \<^verbatim>\<open>_getAllIssues\<close> returns
  the empty list and logs the error, it never throws, and a repository without open
  issues gives the same value; after an empty fetch the run hands the line that no issues
  were found to its logger \<^verbatim>\<open>_log\<close> and returns normally.
\<close>

theorem fetch_failure_returns_empty:
  "(\<forall>r t'. getAllIssues env opts t = (r, t') \<and>
           (\<exists>ev\<in>set (drop (length t) t'). rejected_read ev) \<longrightarrow>
           r = Inr [] \<and> (\<exists>m. last t' = CoreError (fetch_error_line m))) \<and>
   (\<exists>issues d. getAllIssues env opts t = (Inr issues, t @ d)) \<and>
   (repos_get env t \<lparr>rp_owner = repoOwner opts, rp_repo = repoName opts\<rparr> = Inr 0 \<longrightarrow>
      fst (getAllIssues env opts t) = Inr []) \<and>
   (\<forall>t1. getAllIssues env opts t = (Inr [], t1) \<longrightarrow>
      run env opts dryRun t = io_log opts (no_issues_line opts) t1 \<and>
      fst (run env opts dryRun t) = Inr ())"
proof -
  let ?rp = "\<lparr>rp_owner = repoOwner opts, rp_repo = repoName opts\<rparr>"
  have failed: "\<forall>r t'. getAllIssues env opts t = (r, t') \<and>
           (\<exists>ev\<in>set (drop (length t) t'). rejected_read ev) \<longrightarrow>
           r = Inr [] \<and> (\<exists>m. last t' = CoreError (fetch_error_line m))"
  proof (intro allI impI)
    fix r t'
    assume h: "getAllIssues env opts t = (r, t') \<and>
           (\<exists>ev\<in>set (drop (length t) t'). rejected_read ev)"
    from getAllIssues_history [of env t opts]
    consider
      (meta) m where "getAllIssues env opts t =
                (Inr [], t @ [ReposGet ?rp (Inl m), CoreError (fetch_error_line m)])"
    | (good) n d where "\<forall>ev\<in>set d. \<exists>p r. ev = ListForRepo p r"
        "\<forall>a\<in>set (page_answers d). \<not> isl a"
        "getAllIssues env opts t =
           (Inr (concat (map (filter isIssue) (map projr (page_answers d)))),
            t @ ReposGet ?rp (Inr n) # d)"
    | (bad) n d m where "getAllIssues env opts t =
           (Inr [], t @ ReposGet ?rp (Inr n) # d @ [CoreError (fetch_error_line m)])"
      by blast
    then show "r = Inr [] \<and> (\<exists>m. last t' = CoreError (fetch_error_line m))"
    proof cases
      case meta
      then show ?thesis using h by auto
    next
      case good
      have "\<not> (\<exists>ev\<in>set d. rejected_read ev)"
        using rejected_read_pages [OF good(1)] good(2) by blast
      then show ?thesis using h good(3) by auto
    next
      case bad
      then show ?thesis using h by auto
    qed
  qed
  have total: "\<exists>issues d. getAllIssues env opts t = (Inr issues, t @ d)"
    using getAllIssues_returns [of env opts t] by blast
  have zero: "repos_get env t ?rp = Inr 0 \<longrightarrow> fst (getAllIssues env opts t) = Inr []"
    by (simp add: getAllIssues_cases Let_def pageCount_of_def issuesPerPage_def page_numbers_def)
  have runs: "\<forall>t1. getAllIssues env opts t = (Inr [], t1) \<longrightarrow>
      run env opts dryRun t = io_log opts (no_issues_line opts) t1 \<and>
      fst (run env opts dryRun t) = Inr ()"
    by (simp add: run_cases run_triage_cases io_log_cases)
  show ?thesis using failed total zero runs by blast
qed

theorem fetch_failure_returns_empty_witness:
  "run (unreadable demo_entries) demo_opts False [] =
     (Inr (),
      [ReposGet \<lparr>rp_owner = ''o'', rp_repo = ''r''\<rparr> (Inl ''Not Found''),
       CoreError (fetch_error_line ''Not Found''),
       ConsoleLog (no_issues_line demo_opts)]) \<and>
   fst (getAllIssues (page_two_fails many_entries) demo_opts []) = Inr [] \<and>
   fst (getAllIssues (serving []) demo_opts []) = Inr []"
proof -
  let ?h = "[ReposGet \<lparr>rp_owner = ''o'', rp_repo = ''r''\<rparr> (Inl ''Not Found''),
       CoreError (fetch_error_line ''Not Found'')]"
  have f1: "getAllIssues (unreadable demo_entries) demo_opts [] = (Inr [], ?h)"
    by (simp add: getAllIssues_cases unreadable_def serving_def demo_opts_def)
  have logs: "io_log demo_opts (no_issues_line demo_opts) ?h =
      (Inr (), ?h @ [ConsoleLog (no_issues_line demo_opts)])"
    by (simp add: io_log_cases demo_opts_def)
  from fetch_failure_returns_empty [of "unreadable demo_entries" demo_opts "[]" False] f1
  have "run (unreadable demo_entries) demo_opts False [] =
      io_log demo_opts (no_issues_line demo_opts) ?h"
    by blast
  then have r1: "run (unreadable demo_entries) demo_opts False [] =
     (Inr (), ?h @ [ConsoleLog (no_issues_line demo_opts)])"
    using logs by simp
  let ?g = "getAllIssues (page_two_fails many_entries) demo_opts []"
  have rej: "\<exists>ev\<in>set (drop (length ([]::event list)) (snd ?g)). rejected_read ev"
    by code_simp
  have "?g = (fst ?g, snd ?g)" by simp
  with fetch_failure_returns_empty [of "page_two_fails many_entries" demo_opts "[]" False] rej
  have r2: "fst ?g = Inr []" by blast
  have zero: "repos_get (serving []) [] \<lparr>rp_owner = repoOwner demo_opts, rp_repo = repoName demo_opts\<rparr> = Inr 0"
    by (simp add: serving_def)
  from fetch_failure_returns_empty [of "serving []" demo_opts "[]" False] zero
  have r3: "fst (getAllIssues (serving []) demo_opts []) = Inr []" by blast
  show ?thesis using r1 r2 r3 by simp
qed

text \<open>
  C4. For a repository reporting \<open>n\<close> open entries the fetcher asks for the pages
  \<open>1, \<dots>, \<lceil>n / 100\<rceil>\<close>, 100 entries each; what the \<^verbatim>\<open>try\<close> block returns is the
  answers to these requests without their pull requests, concatenated in page order, and
  \<^verbatim>\<open>_getAllIssues\<close> returns the same; so from a tracker that serves a list of entries in
  pages it returns exactly the entries that are not pull requests, in their order, as many
  as the entries less the pull requests.
\<close>

theorem fetch_requests_every_page:
  "int (pageCount_of n) = \<lceil>real n / 100\<rceil> \<and>
   (\<forall>r t'. repos_get env t \<lparr>rp_owner = repoOwner opts, rp_repo = repoName opts\<rparr> = Inr n \<and>
           getAllIssues_try env opts t = (r, t') \<longrightarrow>
           page_requests (drop (length t) t') =
             map (listForRepo_params opts) [1..<Suc (pageCount_of n)] \<and>
           (\<forall>p\<in>set (page_requests (drop (length t) t')). lp_per_page p = 100)) \<and>
   (\<forall>issues t'. getAllIssues_try env opts t = (Inr issues, t') \<longrightarrow>
           (\<forall>a\<in>set (page_answers (drop (length t) t')). \<not> isl a) \<and>
           issues = concat (map (filter isIssue)
                      (map projr (page_answers (drop (length t) t')))) \<and>
           getAllIssues env opts t = (Inr issues, t')) \<and>
   ((\<forall>h. repos_get env h \<lparr>rp_owner = repoOwner opts, rp_repo = repoName opts\<rparr> =
          Inr (length entries)) \<and>
    (\<forall>h p. issues_listForRepo env h p =
          Inr (take (lp_per_page p) (drop ((lp_page p - 1) * lp_per_page p) entries))) \<longrightarrow>
    fst (getAllIssues env opts t) = Inr (filter isIssue entries) \<and>
    length (filter isIssue entries) = length entries - length (filter pull_request entries))"
proof -
  let ?rp = "\<lparr>rp_owner = repoOwner opts, rp_repo = repoName opts\<rparr>"
  have ceil: "int (pageCount_of n) = \<lceil>real n / 100\<rceil>"
    using pageCount_ceiling [of n] by (simp add: issuesPerPage_def)
  have reqs: "\<forall>r t'. repos_get env t ?rp = Inr n \<and> getAllIssues_try env opts t = (r, t') \<longrightarrow>
           page_requests (drop (length t) t') =
             map (listForRepo_params opts) [1..<Suc (pageCount_of n)] \<and>
           (\<forall>p\<in>set (page_requests (drop (length t) t')). lp_per_page p = 100)"
  proof (intro allI impI)
    fix r t'
    assume h: "repos_get env t ?rp = Inr n \<and> getAllIssues_try env opts t = (r, t')"
    from getAllIssues_try_history [of env t opts] h
    obtain d where d:
        "page_requests d = map (listForRepo_params opts) (page_numbers (pageCount_of n))"
        "t' = t @ ReposGet ?rp (Inr n) # d"
      by auto
    show "page_requests (drop (length t) t') =
             map (listForRepo_params opts) [1..<Suc (pageCount_of n)] \<and>
           (\<forall>p\<in>set (page_requests (drop (length t) t')). lp_per_page p = 100)"
      using d
      by (simp add: page_numbers_def listForRepo_params_def issuesPerPage_def del: upt_Suc)
  qed
  have rets: "\<forall>issues t'. getAllIssues_try env opts t = (Inr issues, t') \<longrightarrow>
           (\<forall>a\<in>set (page_answers (drop (length t) t')). \<not> isl a) \<and>
           issues = concat (map (filter isIssue)
                      (map projr (page_answers (drop (length t) t')))) \<and>
           getAllIssues env opts t = (Inr issues, t')"
  proof (intro allI impI)
    fix issues t'
    assume h: "getAllIssues_try env opts t = (Inr issues, t')"
    from getAllIssues_try_history [of env t opts] h
    obtain n' d where d: "\<forall>a\<in>set (page_answers d). \<not> isl a"
        "getAllIssues_try env opts t =
           (Inr (concat (map (filter isIssue) (map projr (page_answers d)))),
            t @ ReposGet ?rp (Inr n') # d)"
      by auto
    have "t' = t @ ReposGet ?rp (Inr n') # d"
      and "issues = concat (map (filter isIssue) (map projr (page_answers d)))"
      using h d(2) by simp_all
    moreover have "getAllIssues env opts t = (Inr issues, t')"
      using h by (simp add: getAllIssues_def io_catch_def)
    ultimately show "(\<forall>a\<in>set (page_answers (drop (length t) t')). \<not> isl a) \<and>
           issues = concat (map (filter isIssue)
                      (map projr (page_answers (drop (length t) t')))) \<and>
           getAllIssues env opts t = (Inr issues, t')"
      using d(1) by simp
  qed
  have paged: "(\<forall>h. repos_get env h ?rp = Inr (length entries)) \<and>
    (\<forall>h p. issues_listForRepo env h p =
          Inr (take (lp_per_page p) (drop ((lp_page p - 1) * lp_per_page p) entries))) \<longrightarrow>
    fst (getAllIssues env opts t) = Inr (filter isIssue entries) \<and>
    length (filter isIssue entries) = length entries - length (filter pull_request entries)"
    using paged_getAllIssues [of env opts entries t] filter_isIssue_length [of entries] by blast
  show ?thesis using ceil reqs rets paged by blast
qed

theorem fetch_requests_every_page_witness:
  "fst (getAllIssues (serving many_entries) demo_opts []) = Inr (filter isIssue many_entries) \<and>
   length (filter isIssue many_entries) = 200 \<and>
   length many_entries = 250 \<and>
   int (pageCount_of 250) = 3 \<and>
   page_requests (snd (getAllIssues_try (serving many_entries) demo_opts [])) =
     [listForRepo_params demo_opts 1, listForRepo_params demo_opts 2,
      listForRepo_params demo_opts 3]"
proof -
  let ?g = "getAllIssues_try (serving many_entries) demo_opts []"
  let ?rp = "\<lparr>rp_owner = repoOwner demo_opts, rp_repo = repoName demo_opts\<rparr>"
  have len: "length many_entries = 250" by (simp add: many_entries_def)
  have prs: "length (filter pull_request many_entries) = 50" by code_simp
  have meta: "\<forall>h. repos_get (serving many_entries) h ?rp = Inr (length many_entries)"
    by (simp add: serving_def)
  have pages: "\<forall>h p. issues_listForRepo (serving many_entries) h p =
          Inr (take (lp_per_page p) (drop ((lp_page p - 1) * lp_per_page p) many_entries))"
    by (simp add: serving_def)
  have meta0: "repos_get (serving many_entries) [] ?rp = Inr 250"
    using meta len by simp
  have pc: "pageCount_of 250 = 3" by (simp add: pageCount_of_def issuesPerPage_def)
  have pair: "?g = (fst ?g, snd ?g)" by simp
  note inst = fetch_requests_every_page [of 250 "serving many_entries" "[]" demo_opts many_entries]
  from inst meta pages
  have a: "fst (getAllIssues (serving many_entries) demo_opts []) =
             Inr (filter isIssue many_entries)"
    and b: "length (filter isIssue many_entries) =
            length many_entries - length (filter pull_request many_entries)"
    by blast+
  from inst meta0 pair
  have c: "page_requests (drop (length ([]::event list)) (snd ?g)) =
             map (listForRepo_params demo_opts) [1..<Suc (pageCount_of 250)]"
    by blast
  have d: "[1..<Suc 3] = [1, 2, 3]" by (simp add: upt_rec)
  show ?thesis using a b c d len prs pc by simp
qed

text \<open>
  C5, as amended. For an author handle without a replacement pattern the rendered message
  is the template with the first occurrence of \<^verbatim>\<open>%DAYS_OLD%\<close> replaced by the decimal
  digits of the age, and then the first occurrence of \<^verbatim>\<open>%AUTHOR%\<close> in the resulting text
  replaced by the handle. The age is \<open>round (\<bar>now - updated_at\<bar> / oneDay)\<close>. Replacing the
  first occurrence leaves a text without the token as it is, and otherwise changes nothing
  before the first occurrence and nothing after it, later occurrences included. The
  message depends on the template, the issue and the clock's reading only.
\<close>

theorem message_replaces_first_tokens:
  "(\<forall>login. user issue = Some login \<and> \<not> has_pattern login \<longrightarrow>
      generateMessage env issue template t =
        (Inr (replace_first
                (replace_first template DAYS_OLD
                   (string_of_nat (getDaysSince env (updated_at issue) t)))
                AUTHOR login), t)) \<and>
   int (getDaysSince env (updated_at issue) t) =
     round (\<bar>real_of_int (clock env t - updated_at issue)\<bar> / real_of_int oneDay) \<and>
   (\<forall>s p r. (\<forall>n. \<not> occurs_at s p n) \<longrightarrow> replace_first s p r = s) \<and>
   (\<forall>s p r n. occurs_at s p n \<and> (\<forall>k<n. \<not> occurs_at s p k) \<longrightarrow>
      s = take n s @ p @ drop (n + length p) s \<and>
      replace_first s p r = take n s @ r @ drop (n + length p) s) \<and>
   (\<forall>env' t'. clock env' t' = clock env t \<longrightarrow>
      fst (generateMessage env' issue template t') = fst (generateMessage env issue template t))"
proof -
  have a: "\<forall>login. user issue = Some login \<and> \<not> has_pattern login \<longrightarrow>
      generateMessage env issue template t =
        (Inr (replace_first
                (replace_first template DAYS_OLD
                   (string_of_nat (getDaysSince env (updated_at issue) t)))
                AUTHOR login), t)"
    using generateMessage_plain by blast
  have b: "\<forall>s p r. (\<forall>n. \<not> occurs_at s p n) \<longrightarrow> replace_first s p r = s"
    using replace_first_none by blast
  have c: "\<forall>s p r n. occurs_at s p n \<and> (\<forall>k<n. \<not> occurs_at s p k) \<longrightarrow>
      s = take n s @ p @ drop (n + length p) s \<and>
      replace_first s p r = take n s @ r @ drop (n + length p) s"
    using occurs_at_split replace_first_at by blast
  have d: "\<forall>env' t'. clock env' t' = clock env t \<longrightarrow>
      fst (generateMessage env' issue template t') = fst (generateMessage env issue template t)"
    using generateMessage_clock by blast
  show ?thesis
    using a b c d getDaysSince_round [of env "updated_at issue" t] by blast
qed

theorem message_replaces_first_tokens_witness:
  "generateMessage (serving demo_entries) (demo_issue 2 40 ''alice'' False)
     ''%AUTHOR%: %DAYS_OLD% days, %DAYS_OLD% days. cc %AUTHOR%'' [] =
     (Inr ''alice: 40 days, %DAYS_OLD% days. cc %AUTHOR%'', []) \<and>
   int (getDaysSince (serving demo_entries) (updated_at (demo_issue 2 40 ''alice'' False)) []) = 40 \<and>
   generateMessage (serving demo_entries) (demo_issue 8 40 ''a$b'' False) ''cc @%AUTHOR%'' [] =
     (Inr ''cc @a$b'', [])"
proof -
  let ?E = "serving demo_entries"
  let ?i2 = "demo_issue 2 40 ''alice'' False"
  let ?i8 = "demo_issue 8 40 ''a$b'' False"
  have u8: "user ?i8 = Some ''a$b''" by (simp add: demo_issue_def)
  have nd8: "\<not> has_pattern ''a$b''" by simp
  from message_replaces_first_tokens [of ?i8 ?E "''cc @%AUTHOR%''" "[]"] u8 nd8
  have a8: "generateMessage ?E ?i8 ''cc @%AUTHOR%'' [] =
        (Inr (replace_first
                (replace_first ''cc @%AUTHOR%'' DAYS_OLD
                   (string_of_nat (getDaysSince ?E (updated_at ?i8) [])))
                AUTHOR ''a$b''), [])"
    by blast
  have b8: "replace_first
                (replace_first ''cc @%AUTHOR%'' DAYS_OLD
                   (string_of_nat (getDaysSince ?E (updated_at ?i8) [])))
                AUTHOR ''a$b'' = ''cc @a$b''"
    by code_simp
  have u: "user ?i2 = Some ''alice''" by (simp add: demo_issue_def)
  have nd: "\<not> has_pattern ''alice''" by simp
  note inst = message_replaces_first_tokens
    [of ?i2 ?E "''%AUTHOR%: %DAYS_OLD% days, %DAYS_OLD% days. cc %AUTHOR%''" "[]"]
  from inst u nd
  have a: "generateMessage ?E ?i2 ''%AUTHOR%: %DAYS_OLD% days, %DAYS_OLD% days. cc %AUTHOR%'' [] =
        (Inr (replace_first
                (replace_first ''%AUTHOR%: %DAYS_OLD% days, %DAYS_OLD% days. cc %AUTHOR%'' DAYS_OLD
                   (string_of_nat (getDaysSince ?E (updated_at ?i2) [])))
                AUTHOR ''alice''), [])"
    by blast
  have b: "replace_first
                (replace_first ''%AUTHOR%: %DAYS_OLD% days, %DAYS_OLD% days. cc %AUTHOR%'' DAYS_OLD
                   (string_of_nat (getDaysSince ?E (updated_at ?i2) [])))
                AUTHOR ''alice'' = ''alice: 40 days, %DAYS_OLD% days. cc %AUTHOR%''"
    by code_simp
  from inst
  have "int (getDaysSince ?E (updated_at ?i2) []) =
     round (\<bar>real_of_int (clock ?E [] - updated_at ?i2)\<bar> / real_of_int oneDay)"
    by blast
  also have "\<dots> = 40"
    by (simp add: serving_def demo_issue_def oneDay_def)
  finally have c: "int (getDaysSince ?E (updated_at ?i2) []) = 40" .
  show ?thesis using a b c a8 b8 by simp
qed

text \<open>
  C5 as stated fails for a template whose \<^verbatim>\<open>%AUTHOR%\<close> token shares a percent sign with
  the \<^verbatim>\<open>%DAYS_OLD%\<close> token after it: the age is substituted first and takes the percent
  sign along, so the first occurrence of \<^verbatim>\<open>%AUTHOR%\<close> in the template is not replaced and
  the handle is nowhere in the message.
\<close>

theorem message_loses_overlapped_author:
  "indexOf ''%AUTHOR%DAYS_OLD%'' AUTHOR = Some 0 \<and>
   indexOf ''%AUTHOR%DAYS_OLD%'' DAYS_OLD = Some 7 \<and>
   generateMessage (serving demo_entries) (demo_issue 2 40 ''alice'' False)
     ''%AUTHOR%DAYS_OLD%'' [] = (Inr ''%AUTHOR40'', []) \<and>
   indexOf ''%AUTHOR40'' ''alice'' = None"
  by code_simp

text \<open>
  The proviso on the handle is needed for the equation of the amended claim: a replacement
  pattern in the replacement text is expanded by \<^verbatim>\<open>String.prototype.replace\<close>.
\<close>

lemma replacement_pattern_expanded:
  "generateMessage (serving demo_entries)
     \<lparr>number = 7, updated_at = demo_now - 40 * oneDay, user = Some ''$&'', labels = [],
      pull_request = False\<rparr> ''cc @%AUTHOR%'' [] = (Inr ''cc @%AUTHOR%'', []) \<and>
   replace_first (replace_first ''cc @%AUTHOR%'' DAYS_OLD ''40'') AUTHOR ''$&'' = ''cc @$&''"
  by code_simp

text \<open>
  C6. The entry script does not read the \<^verbatim>\<open>closeComment\<close> input: a supplied close
  template is ignored, and a supplied \<^verbatim>\<open>staleComment\<close> becomes the close template.
\<close>

theorem closeComment_input_ignored:
  "closeComment (options (\<lambda>name. if name = ''closeComment'' then ''Closing this one.'' else [])
                   toNumber owner name) = closeCommentDefault \<and>
   closeComment (options (\<lambda>name. if name = ''closeComment'' then ''Closing this one.''
                                 else if name = ''staleComment'' then ''Marked stale.'' else [])
                   toNumber owner name) = ''Marked stale.''"
  by (simp add: options_def)

text \<open>
  C7, as amended. \<^verbatim>\<open>run\<close> returns no value and never throws. The counters it has
  accumulated are reported only by the log lines at its end (printed when \<^verbatim>\<open>showLogs\<close>
  is set); in a live run they are the number of accepted updates that set the labels and
  the number of accepted updates that closed an issue.
\<close>

theorem run_reports_counts_in_log:
  "(\<exists>d. run env opts dryRun t = (Inr (), t @ d)) \<and>
   (\<forall>t1. run_triage env opts dryRun t = (Inr None, t1) \<longrightarrow> run env opts dryRun t = (Inr (), t1)) \<and>
   (\<forall>staleIssues c t1.
      run_triage env opts dryRun t = (Inr (Some (staleIssues, c)), t1) \<longrightarrow>
      run env opts dryRun t = (Inr (), t1 @ report_lines opts c) \<and>
      (\<not> dryRun \<longrightarrow>
         markedStale c =
           length (filter (\<lambda>ev. label_request ev \<and> accepted ev) (drop (length t) t1)) \<and>
         closed c =
           length (filter (\<lambda>ev. close_request ev \<and> accepted ev) (drop (length t) t1))))"
proof -
  have a: "\<exists>d. run env opts dryRun t = (Inr (), t @ d)"
    by (rule run_returns)
  have b: "\<forall>t1. run_triage env opts dryRun t = (Inr None, t1) \<longrightarrow>
      run env opts dryRun t = (Inr (), t1)"
    by (simp add: run_cases)
  have c: "\<forall>staleIssues c t1.
      run_triage env opts dryRun t = (Inr (Some (staleIssues, c)), t1) \<longrightarrow>
      run env opts dryRun t = (Inr (), t1 @ report_lines opts c) \<and>
      (\<not> dryRun \<longrightarrow>
         markedStale c =
           length (filter (\<lambda>ev. label_request ev \<and> accepted ev) (drop (length t) t1)) \<and>
         closed c =
           length (filter (\<lambda>ev. close_request ev \<and> accepted ev) (drop (length t) t1)))"
    using run_triage_tally [of env opts t] by (auto simp: run_cases)
  show ?thesis using a b c by blast
qed

theorem run_reports_counts_in_log_witness:
  "run (serving demo_entries) demo_opts False [] =
     (Inr (),
      snd (run_triage (serving demo_entries) demo_opts False []) @
      [ConsoleLog (stale_line 1), ConsoleLog (closed_line 1)]) \<and>
   length (filter (\<lambda>ev. label_request ev \<and> accepted ev)
     (snd (run_triage (serving demo_entries) demo_opts False []))) = 1 \<and>
   length (filter (\<lambda>ev. close_request ev \<and> accepted ev)
     (snd (run_triage (serving demo_entries) demo_opts False []))) = 1"
proof -
  let ?E = "serving demo_entries"
  let ?stale = "[demo_issue 2 40 ''alice'' False, demo_issue 3 70 ''bob'' False]"
  let ?c = "\<lparr>markedStale = 1, closed = 1\<rparr>"
  let ?r = "run_triage ?E demo_opts False []"
  have "fst ?r = Inr (Some (?stale, ?c))"
    by code_simp
  then have r: "?r = (Inr (Some (?stale, ?c)), snd ?r)"
    by (metis prod.collapse)
  have live: "\<not> False" by simp
  from run_reports_counts_in_log [of ?E demo_opts False "[]"] r live
  have a: "run ?E demo_opts False [] = (Inr (), snd ?r @ report_lines demo_opts ?c)"
    and b: "markedStale ?c =
           length (filter (\<lambda>ev. label_request ev \<and> accepted ev) (drop (length ([]::event list)) (snd ?r)))"
    and c: "closed ?c =
           length (filter (\<lambda>ev. close_request ev \<and> accepted ev) (drop (length ([]::event list)) (snd ?r)))"
    by blast+
  have lines: "report_lines demo_opts ?c = [ConsoleLog (stale_line 1), ConsoleLog (closed_line 1)]"
    by (simp add: report_lines_def demo_opts_def)
  show ?thesis using a b c lines by simp
qed

text \<open>
  C7 as stated fails: two runs with different counters return the same value.
\<close>

theorem run_returns_no_counts:
  "fst (run (serving demo_entries) demo_opts False []) = Inr () \<and>
   fst (run (serving [demo_issue 2 40 ''alice'' False]) demo_opts False []) = Inr () \<and>
   fst (run_triage (serving demo_entries) demo_opts False []) =
     Inr (Some ([demo_issue 2 40 ''alice'' False, demo_issue 3 70 ''bob'' False],
                \<lparr>markedStale = 1, closed = 1\<rparr>)) \<and>
   fst (run_triage (serving [demo_issue 2 40 ''alice'' False]) demo_opts False []) =
     Inr (Some ([demo_issue 2 40 ''alice'' False], \<lparr>markedStale = 1, closed = 0\<rparr>))"
  by code_simp

text \<open>
  C8. The update that marks an issue stale carries the labels of the issue followed by
  the stale label, with no deduplication: a stale label that is already attached is on
  the list twice. Every update sent for an issue that is not being closed is this one.
\<close>

theorem stale_labels_not_deduplicated:
  assumes "\<not> dryRun"
  shows "(\<exists>rest. snd (updateIssue env opts dryRun issue False t) =
             t @ UpdateIssue (updateIssue_params opts issue False)
                   (issues_update env t (updateIssue_params opts issue False)) # rest) \<and>
         up_labels (updateIssue_params opts issue False) = Some (labels issue @ [staleLabel opts]) \<and>
         up_state (updateIssue_params opts issue False) = None \<and>
         count_list (labels issue @ [staleLabel opts]) (staleLabel opts) =
           count_list (labels issue) (staleLabel opts) + 1 \<and>
         (staleLabel opts \<in> set (labels issue) \<longrightarrow>
            2 \<le> count_list (labels issue @ [staleLabel opts]) (staleLabel opts)) \<and>
         (\<forall>c r t' q res.
            triage_issue env opts dryRun issue c t = (r, t') \<and>
            \<not> isClosingDown env opts issue t \<and> UpdateIssue q res \<in> set (drop (length t) t') \<longrightarrow>
            q = updateIssue_params opts issue False)"
proof -
  have sent: "\<exists>rest. snd (updateIssue env opts dryRun issue False t) =
             t @ UpdateIssue (updateIssue_params opts issue False)
                   (issues_update env t (updateIssue_params opts issue False)) # rest"
    using assms by (simp add: updateIssue_cases split: sum.split)
  have twice: "staleLabel opts \<in> set (labels issue) \<longrightarrow>
      2 \<le> count_list (labels issue @ [staleLabel opts]) (staleLabel opts)"
    using count_list_0_iff [of "labels issue" "staleLabel opts"] by auto
  have upd: "\<forall>c r t' q res.
            triage_issue env opts dryRun issue c t = (r, t') \<and>
            \<not> isClosingDown env opts issue t \<and> UpdateIssue q res \<in> set (drop (length t) t') \<longrightarrow>
            q = updateIssue_params opts issue False"
  proof (intro allI impI)
    fix c r t' q res
    assume h: "triage_issue env opts dryRun issue c t = (r, t') \<and>
            \<not> isClosingDown env opts issue t \<and> UpdateIssue q res \<in> set (drop (length t) t')"
    obtain c' d where d: "triage_issue env opts dryRun issue c t = (Inr c', t @ d)"
      "\<forall>q res. UpdateIssue q res \<in> set d \<longrightarrow>
             q = updateIssue_params opts issue (isClosingDown env opts issue t)"
      using triage_issue_success by blast
    from h d(1) have "t' = t @ d" by simp
    then show "q = updateIssue_params opts issue False"
      using h d(2) by auto
  qed
  show ?thesis
    using sent twice upd by (simp add: updateIssue_params_def)
qed

theorem stale_labels_not_deduplicated_witness:
  "snd (updateIssue (serving demo_entries) demo_opts False relabelled False []) =
     [UpdateIssue (updateIssue_params demo_opts relabelled False) (Inr ())] \<and>
   up_labels (updateIssue_params demo_opts relabelled False) = Some [''STALE'', ''STALE''] \<and>
   2 \<le> count_list (labels relabelled @ [staleLabel demo_opts]) (staleLabel demo_opts)"
proof -
  have live: "\<not> False" by simp
  have attached: "staleLabel demo_opts \<in> set (labels relabelled)"
    by (simp add: demo_opts_def relabelled_def)
  from stale_labels_not_deduplicated [OF live, of "serving demo_entries" demo_opts relabelled "[]"]
    attached
  have "2 \<le> count_list (labels relabelled @ [staleLabel demo_opts]) (staleLabel demo_opts)"
    by blast
  moreover have "snd (updateIssue (serving demo_entries) demo_opts False relabelled False []) =
     [UpdateIssue (updateIssue_params demo_opts relabelled False) (Inr ())]"
    by (simp add: updateIssue_cases serving_def)
  moreover have "up_labels (updateIssue_params demo_opts relabelled False) =
      Some [''STALE'', ''STALE'']"
    by (simp add: updateIssue_params_def relabelled_def demo_opts_def)
  ultimately show ?thesis by blast
qed

text \<open>
  C9, as amended. A dry run sends no comment and no update. When the tracker accepts
  every comment and every update, and the clock's reading does not depend on the writes
  sent, the dry run has the counters of the live run and its history is the history of
  the live run without the writes: the same reads and the same logged lines.
\<close>

theorem dry_run_matches_accepted_live_run:
  "writes (drop (length t) (snd (run env opts True t))) = [] \<and>
   ((\<forall>h p. issues_createComment env h p = Inr ()) \<and>
    (\<forall>h p. issues_update env h p = Inr ()) \<and>
    (\<forall>h h'. logs_of h = logs_of h' \<longrightarrow> clock env h = clock env h') \<longrightarrow>
    fst (run_triage env opts True t) = fst (run_triage env opts False t) \<and>
    fst (run env opts True t) = fst (run env opts False t) \<and>
    drop (length t) (snd (run env opts True t)) =
      logs_of (drop (length t) (snd (run env opts False t))))"
proof -
  obtain allIssues d0 where f: "getAllIssues env opts t = (Inr allIssues, t @ d0)"
    using getAllIssues_returns by blast
  have "run env opts True t = (fst (run env opts True t), snd (run env opts True t))"
    by simp
  from run_writes [OF f this]
  have quiet: "writes (drop (length t) (snd (run env opts True t))) = []"
    by simp
  have same: "(\<forall>h p. issues_createComment env h p = Inr ()) \<and>
    (\<forall>h p. issues_update env h p = Inr ()) \<and>
    (\<forall>h h'. logs_of h = logs_of h' \<longrightarrow> clock env h = clock env h') \<longrightarrow>
    fst (run_triage env opts True t) = fst (run_triage env opts False t) \<and>
    fst (run env opts True t) = fst (run env opts False t) \<and>
    drop (length t) (snd (run env opts True t)) =
      logs_of (drop (length t) (snd (run env opts False t)))"
  proof
    assume h: "(\<forall>h p. issues_createComment env h p = Inr ()) \<and>
      (\<forall>h p. issues_update env h p = Inr ()) \<and>
      (\<forall>h h'. logs_of h = logs_of h' \<longrightarrow> clock env h = clock env h')"
    then obtain r dl dl' where k:
        "run_triage env opts False t = (Inr r, t @ dl)"
        "run_triage env opts True t = (Inr r, t @ logs_of dl)"
        "run env opts False t = (Inr (), t @ dl')"
        "run env opts True t = (Inr (), t @ logs_of dl')"
      using run_dry_live [of env opts t] by blast
    show "fst (run_triage env opts True t) = fst (run_triage env opts False t) \<and>
      fst (run env opts True t) = fst (run env opts False t) \<and>
      drop (length t) (snd (run env opts True t)) =
        logs_of (drop (length t) (snd (run env opts False t)))"
      using k by simp
  qed
  show ?thesis using quiet same by blast
qed

theorem dry_run_matches_accepted_live_run_witness:
  "fst (run_triage (serving demo_entries) demo_opts True []) =
     Inr (Some ([demo_issue 2 40 ''alice'' False, demo_issue 3 70 ''bob'' False],
                \<lparr>markedStale = 1, closed = 1\<rparr>)) \<and>
   fst (run (serving demo_entries) demo_opts True []) = Inr () \<and>
   snd (run (serving demo_entries) demo_opts True []) =
     logs_of (snd (run (serving demo_entries) demo_opts False []))"
proof -
  let ?E = "serving demo_entries"
  have c1: "\<forall>h p. issues_createComment ?E h p = Inr ()" by (simp add: serving_def)
  have c2: "\<forall>h p. issues_update ?E h p = Inr ()" by (simp add: serving_def)
  have clk: "\<forall>h h'. logs_of h = logs_of h' \<longrightarrow> clock ?E h = clock ?E h'"
    by (simp add: serving_def)
  from dry_run_matches_accepted_live_run [of "[]" ?E demo_opts] c1 c2 clk
  have a: "fst (run_triage ?E demo_opts True []) = fst (run_triage ?E demo_opts False [])"
    and b: "fst (run ?E demo_opts True []) = fst (run ?E demo_opts False [])"
    and c: "drop (length ([]::event list)) (snd (run ?E demo_opts True [])) =
      logs_of (drop (length ([]::event list)) (snd (run ?E demo_opts False [])))"
    by blast+
  have live: "fst (run_triage ?E demo_opts False []) =
     Inr (Some ([demo_issue 2 40 ''alice'' False, demo_issue 3 70 ''bob'' False],
                \<lparr>markedStale = 1, closed = 1\<rparr>))"
    by code_simp
  have live': "fst (run ?E demo_opts False []) = Inr ()"
    by code_simp
  show ?thesis using a b c live live' by simp
qed

text \<open>
  C9 as stated fails when the tracker refuses a comment in the live run: the dry run
  counts the issue as marked stale and logs it, the live run does not.
\<close>

theorem dry_run_differs_from_refused_live_run:
  "fst (run_triage (comment_refused 2 demo_entries) demo_opts True []) =
     Inr (Some ([demo_issue 2 40 ''alice'' False, demo_issue 3 70 ''bob'' False],
                \<lparr>markedStale = 1, closed = 1\<rparr>)) \<and>
   fst (run_triage (comment_refused 2 demo_entries) demo_opts False []) =
     Inr (Some ([demo_issue 2 40 ''alice'' False, demo_issue 3 70 ''bob'' False],
                \<lparr>markedStale = 0, closed = 1\<rparr>)) \<and>
   ConsoleLog (stale_line 1) \<in> set (snd (run (comment_refused 2 demo_entries) demo_opts True [])) \<and>
   ConsoleLog (stale_line 1) \<notin> set (snd (run (comment_refused 2 demo_entries) demo_opts False []))"
  by code_simp

text \<open>
  C10. One round of the loop leaves the counters as they are or adds one to exactly one of
  them, and adds it only when \<^verbatim>\<open>_postComment\<close> and then \<^verbatim>\<open>_updateIssue\<close> have both
  reported success (in a live run: the comment and the update were both accepted); the
  counters of a run start at zero, and their sum never exceeds the number of candidates.
\<close>

theorem counters_count_each_issue_once:
  "(\<forall>r t'. triage_issue env opts dryRun issue c t = (r, t') \<longrightarrow>
      (\<exists>c'. r = Inr c' \<and>
         (c' = c \<or> c' = c\<lparr>markedStale := markedStale c + 1\<rparr> \<or>
          c' = c\<lparr>closed := closed c + 1\<rparr>) \<and>
         (c' \<noteq> c \<longrightarrow>
            fst (postComment env opts dryRun issue
                   (if isClosingDown env opts issue t then closeComment opts
                    else staleComment opts) t) = Inr True \<and>
            fst (updateIssue env opts dryRun issue (isClosingDown env opts issue t)
                   (snd (postComment env opts dryRun issue
                      (if isClosingDown env opts issue t then closeComment opts
                       else staleComment opts) t))) = Inr True) \<and>
         (\<not> dryRun \<and> c' \<noteq> c \<longrightarrow>
            (\<exists>message.
               drop (length t) t' =
                 [CreateComment (postComment_params opts issue message) (Inr ()),
                  UpdateIssue (updateIssue_params opts issue (isClosingDown env opts issue t))
                    (Inr ())])))) \<and>
   (\<forall>r t'. triage_loop env opts dryRun issues c t = (r, t') \<longrightarrow>
      (\<exists>c'. r = Inr c' \<and>
         markedStale c' + closed c' \<le> markedStale c + closed c + length issues)) \<and>
   (\<forall>staleIssues c' t'.
      run_triage env opts dryRun t = (Inr (Some (staleIssues, c')), t') \<longrightarrow>
      (\<exists>t2. triage_loop env opts dryRun staleIssues \<lparr>markedStale = 0, closed = 0\<rparr> t2 =
              (Inr c', t')) \<and>
      markedStale c' + closed c' \<le> length staleIssues)"
proof -
  have one: "\<forall>r t'. triage_issue env opts dryRun issue c t = (r, t') \<longrightarrow>
      (\<exists>c'. r = Inr c' \<and>
         (c' = c \<or> c' = c\<lparr>markedStale := markedStale c + 1\<rparr> \<or>
          c' = c\<lparr>closed := closed c + 1\<rparr>) \<and>
         (c' \<noteq> c \<longrightarrow>
            fst (postComment env opts dryRun issue
                   (if isClosingDown env opts issue t then closeComment opts
                    else staleComment opts) t) = Inr True \<and>
            fst (updateIssue env opts dryRun issue (isClosingDown env opts issue t)
                   (snd (postComment env opts dryRun issue
                      (if isClosingDown env opts issue t then closeComment opts
                       else staleComment opts) t))) = Inr True) \<and>
         (\<not> dryRun \<and> c' \<noteq> c \<longrightarrow>
            (\<exists>message.
               drop (length t) t' =
                 [CreateComment (postComment_params opts issue message) (Inr ()),
                  UpdateIssue (updateIssue_params opts issue (isClosingDown env opts issue t))
                    (Inr ())])))"
  proof (intro allI impI)
    fix r t'
    assume h: "triage_issue env opts dryRun issue c t = (r, t')"
    obtain c1 d1 where k: "triage_issue env opts dryRun issue c t = (Inr c1, t @ d1)"
      "c1 = c \<or> c1 = c\<lparr>markedStale := markedStale c + 1\<rparr> \<and> \<not> isClosingDown env opts issue t \<or>
       c1 = c\<lparr>closed := closed c + 1\<rparr> \<and> isClosingDown env opts issue t"
      using triage_issue_counts by blast
    obtain c2 d2 where s: "triage_issue env opts dryRun issue c t = (Inr c2, t @ d2)"
      "\<not> dryRun \<and> c2 \<noteq> c \<longrightarrow>
             (\<exists>message.
                d2 = [CreateComment (postComment_params opts issue message) (Inr ()),
                     UpdateIssue (updateIssue_params opts issue (isClosingDown env opts issue t))
                       (Inr ())])"
      using triage_issue_success by blast
    have r: "r = Inr c1" and t': "t' = t @ d1" using h k(1) by simp_all
    have same: "c2 = c1" "d2 = d1" using k(1) s(1) by simp_all
    have p1: "c1 = c \<or> c1 = c\<lparr>markedStale := markedStale c + 1\<rparr> \<or>
          c1 = c\<lparr>closed := closed c + 1\<rparr>"
      using k(2) by blast
    have p2: "c1 \<noteq> c \<longrightarrow>
            fst (postComment env opts dryRun issue
                   (if isClosingDown env opts issue t then closeComment opts
                    else staleComment opts) t) = Inr True \<and>
            fst (updateIssue env opts dryRun issue (isClosingDown env opts issue t)
                   (snd (postComment env opts dryRun issue
                      (if isClosingDown env opts issue t then closeComment opts
                       else staleComment opts) t))) = Inr True"
      using triage_issue_counted [OF k(1)] by blast
    have p3: "\<not> dryRun \<and> c1 \<noteq> c \<longrightarrow>
            (\<exists>message.
               drop (length t) t' =
                 [CreateComment (postComment_params opts issue message) (Inr ()),
                  UpdateIssue (updateIssue_params opts issue (isClosingDown env opts issue t))
                    (Inr ())])"
      using s(2) same t' by simp
    show "\<exists>c'. r = Inr c' \<and>
         (c' = c \<or> c' = c\<lparr>markedStale := markedStale c + 1\<rparr> \<or>
          c' = c\<lparr>closed := closed c + 1\<rparr>) \<and>
         (c' \<noteq> c \<longrightarrow>
            fst (postComment env opts dryRun issue
                   (if isClosingDown env opts issue t then closeComment opts
                    else staleComment opts) t) = Inr True \<and>
            fst (updateIssue env opts dryRun issue (isClosingDown env opts issue t)
                   (snd (postComment env opts dryRun issue
                      (if isClosingDown env opts issue t then closeComment opts
                       else staleComment opts) t))) = Inr True) \<and>
         (\<not> dryRun \<and> c' \<noteq> c \<longrightarrow>
            (\<exists>message.
               drop (length t) t' =
                 [CreateComment (postComment_params opts issue message) (Inr ()),
                  UpdateIssue (updateIssue_params opts issue (isClosingDown env opts issue t))
                    (Inr ())]))"
      using r p1 p2 p3 by blast
  qed
  have loop: "\<forall>r t'. triage_loop env opts dryRun issues c t = (r, t') \<longrightarrow>
      (\<exists>c'. r = Inr c' \<and>
         markedStale c' + closed c' \<le> markedStale c + closed c + length issues)"
    using triage_loop_total [of env opts dryRun issues c t] by auto
  have whole: "\<forall>staleIssues c' t'.
      run_triage env opts dryRun t = (Inr (Some (staleIssues, c')), t') \<longrightarrow>
      (\<exists>t2. triage_loop env opts dryRun staleIssues \<lparr>markedStale = 0, closed = 0\<rparr> t2 =
              (Inr c', t')) \<and>
      markedStale c' + closed c' \<le> length staleIssues"
  proof (intro allI impI)
    fix staleIssues c' t'
    assume h: "run_triage env opts dryRun t = (Inr (Some (staleIssues, c')), t')"
    obtain allIssues d0 where f: "getAllIssues env opts t = (Inr allIssues, t @ d0)"
      using getAllIssues_returns by blast
    let ?t2 = "snd (io_log opts (total_issues_line opts (length allIssues)) (t @ d0))"
    from run_triage_returns [OF f, of dryRun] h
    obtain d where l: "triage_loop env opts dryRun staleIssues \<lparr>markedStale = 0, closed = 0\<rparr> ?t2 =
        (Inr c', ?t2 @ d)" "t' = ?t2 @ d"
      by auto
    obtain c2 d2 where tot: "triage_loop env opts dryRun staleIssues \<lparr>markedStale = 0, closed = 0\<rparr> ?t2 =
        (Inr c2, ?t2 @ d2)"
       "markedStale c2 + closed c2 \<le>
          markedStale \<lparr>markedStale = 0, closed = 0\<rparr> + closed \<lparr>markedStale = 0, closed = 0\<rparr> +
          length staleIssues"
      using triage_loop_total by blast
    have "c2 = c'" using l(1) tot(1) by simp
    then have "markedStale c' + closed c' \<le> length staleIssues"
      using tot(2) by simp
    then show "(\<exists>t2. triage_loop env opts dryRun staleIssues \<lparr>markedStale = 0, closed = 0\<rparr> t2 =
              (Inr c', t')) \<and>
      markedStale c' + closed c' \<le> length staleIssues"
      using l by blast
  qed
  show ?thesis using one loop whole by blast
qed

theorem counters_count_each_issue_once_witness:
  "fst (run_triage (serving demo_entries) demo_opts False []) =
     Inr (Some ([demo_issue 2 40 ''alice'' False, demo_issue 3 70 ''bob'' False],
                \<lparr>markedStale = 1, closed = 1\<rparr>)) \<and>
   markedStale \<lparr>markedStale = 1, closed = 1\<rparr> + closed \<lparr>markedStale = 1, closed = 1\<rparr> \<le>
     length [demo_issue 2 40 ''alice'' False, demo_issue 3 70 ''bob'' False] \<and>
   triage_issue (serving demo_entries) demo_opts False (demo_issue 2 40 ''alice'' False)
     \<lparr>markedStale = 0, closed = 0\<rparr> [] =
     (Inr \<lparr>markedStale = 1, closed = 0\<rparr>,
      [CreateComment (postComment_params demo_opts (demo_issue 2 40 ''alice'' False) ''40 @alice'')
         (Inr ()),
       UpdateIssue (updateIssue_params demo_opts (demo_issue 2 40 ''alice'' False) False)
         (Inr ())])"
proof -
  let ?E = "serving demo_entries"
  let ?i2 = "demo_issue 2 40 ''alice'' False"
  let ?stale = "[?i2, demo_issue 3 70 ''bob'' False]"
  let ?c = "\<lparr>markedStale = 1, closed = 1\<rparr>"
  let ?r = "run_triage ?E demo_opts False []"
  have a: "fst ?r = Inr (Some (?stale, ?c))"
    by code_simp
  then have "?r = (Inr (Some (?stale, ?c)), snd ?r)"
    by (metis prod.collapse)
  with counters_count_each_issue_once [of ?E demo_opts False ?i2 "\<lparr>markedStale = 0, closed = 0\<rparr>" "[]" "[]"]
  have b: "markedStale ?c + closed ?c \<le> length ?stale"
    by blast
  have c: "triage_issue ?E demo_opts False ?i2 \<lparr>markedStale = 0, closed = 0\<rparr> [] =
     (Inr \<lparr>markedStale = 1, closed = 0\<rparr>,
      [CreateComment (postComment_params demo_opts ?i2 ''40 @alice'') (Inr ()),
       UpdateIssue (updateIssue_params demo_opts ?i2 False) (Inr ())])"
    by code_simp
  show ?thesis using a b c by blast
qed

end
